theory Spec2Isabelle
  imports Main "HOL-Library.Word"
begin

section \<open>Data model of reconstruction.cpp\<close>

text \<open>
  The machine integers of the source: sizes and counts are \<open>uint32_t\<close> and are added and
  subtracted, so they are 32-bit words (addition wraps). Identifiers are words of their
  width and are only compared. Prices are \<open>int64_t\<close>; the program only copies and compares
  them (signed order), never computes with them, so a price is an \<open>int\<close>.
\<close>

type_synonym u8 = "8 word"
type_synonym u16 = "16 word"
type_synonym u32 = "32 word"
type_synonym u64 = "64 word"

definition UNDEFINED_PRICE :: int where
  "UNDEFINED_PRICE = - 9223372036854775807"

text \<open>
  \<open>Act::Type\<close> and \<open>Sd::Type\<close> are enumerations over \<open>char\<close>; the decoder casts the first
  byte of a field, so a byte outside the enumerators can arrive (\<open>Act_Other\<close>, \<open>Sd_Other\<close>).
\<close>

datatype Act = Act_Add | Act_Cancel | Act_Modify | Act_Clear | Act_Trade | Act_Fill
  | Act_None | Act_Other char

datatype Sd = Sd_Ask | Sd_Bid | Sd_None | Sd_Other char

text \<open>\<open>struct MboSingle\<close>; the field \<open>size\<close> is named \<open>osize\<close> here.\<close>

record MboSingle =
  tsRecv :: string
  tsEvent :: string
  rtype :: u8
  pubId :: u16
  instrId :: u32
  action :: Act
  side :: Sd
  price :: int
  osize :: u32
  chanId :: u8
  orderId :: u64
  flags :: u8
  tsInDelta :: "32 word"
  sequence :: u32
  symbol :: string

text \<open>\<open>struct PriceLvl\<close> with its default member initialisers.\<close>

record PriceLvl =
  lprice :: int
  lsize :: u32
  lcount :: u32

definition PriceLvl_init :: "int \<Rightarrow> PriceLvl" where
  "PriceLvl_init px = \<lparr>lprice = px, lsize = 0, lcount = 0\<rparr>"

definition IsEmpty :: "PriceLvl \<Rightarrow> bool" where
  "IsEmpty l = (lprice l = UNDEFINED_PRICE)"

text \<open>
  The exceptions the book throws (\<open>std::invalid_argument\<close>, \<open>std::logic_error\<close>) with what
  their message names, and the lines written to \<open>std::cerr\<close>.
\<close>

datatype errmsg = Dupe_ID u64 | Invalid_side | Access_unk_lvl Sd int | Changed_side u64

datatype error = invalid_argument errmsg | logic_error errmsg

datatype warning =
    Warn_unknown_action Act
  | Warn_synth_no_lvl Sd int u32
  | Warn_cancel_unk_ID u64
  | IntErr_not_in_list u64
  | Warn_partial_cancel u64
  | IntErr_not_in_prev_list u64
  | Err_synth_no_instr u32
  | Err_synth_no_book u32 u16
  | Warn_TF_side_none u64
  | Err_synth_trade u64 error

subsection \<open>\<open>std::map\<close> as a key-sorted association list\<close>

text \<open>
  \<open>std::map<int64_t, V>\<close> keeps its entries in increasing key order with unique keys, and
  the program iterates it in that order (and in reverse). It is modelled by an association
  list whose keys increase strictly (\<open>smap_ok\<close>); \<open>find\<close> is \<open>map_of\<close>.
\<close>

type_synonym 'v smap = "(int \<times> 'v) list"

definition smap_ok :: "'v smap \<Rightarrow> bool" where
  "smap_ok m = sorted_wrt (<) (map fst m)"

text \<open>\<open>operator[]\<close>: inserts a value-initialised entry at its place when the key is absent.\<close>

fun smap_at :: "int \<Rightarrow> 'v \<Rightarrow> 'v smap \<Rightarrow> 'v smap" where
  "smap_at k d [] = [(k, d)]"
| "smap_at k d ((k', v) # r) =
     (if k < k' then (k, d) # (k', v) # r
      else if k = k' then (k', v) # r
      else (k', v) # smap_at k d r)"

text \<open>A write through the reference that \<open>find\<close> or \<open>operator[]\<close> returned.\<close>

fun smap_upd :: "int \<Rightarrow> ('v \<Rightarrow> 'v) \<Rightarrow> 'v smap \<Rightarrow> 'v smap" where
  "smap_upd k f [] = []"
| "smap_upd k f ((k', v) # r) =
     (if k = k' then (k', f v) # r else (k', v) # smap_upd k f r)"

text \<open>\<open>erase(key)\<close>.\<close>

fun smap_erase :: "int \<Rightarrow> 'v smap \<Rightarrow> 'v smap" where
  "smap_erase k [] = []"
| "smap_erase k ((k', v) # r) =
     (if k = k' then r else (k', v) # smap_erase k r)"

subsection \<open>The book\<close>

type_synonym LvlOrdsInQ = "MboSingle list"

record PxAndSd =
  ps_price :: int
  ps_side :: Sd

type_synonym OrdsById = "u64 \<rightharpoonup> PxAndSd"
type_synonym LvlOrds = "LvlOrdsInQ smap"

text \<open>\<open>class Book\<close>: the members \<open>ordsById_\<close>, \<open>offers_\<close>, \<open>bids_\<close> (a name cannot end in an underscore here).\<close>

record Book =
  ordsById :: OrdsById
  offers :: LvlOrds
  bids :: LvlOrds

definition Book_init :: Book where
  "Book_init = \<lparr>ordsById = Map.empty, offers = [], bids = []\<rparr>"

text \<open>\<open>Book::CalcPriceLvl\<close>: the loop over the orders of a level.\<close>

definition CalcPriceLvl :: "int \<Rightarrow> LvlOrdsInQ \<Rightarrow> PriceLvl" where
  "CalcPriceLvl px lvl =
     fold (\<lambda>ord res. res\<lparr>lcount := lcount res + 1, lsize := lsize res + osize ord\<rparr>)
       lvl (PriceLvl_init px)"

text \<open>
  \<open>Book::GetBidLvls\<close>, \<open>Book::GetAskLvls\<close>: the first \<open>numLvls\<close> levels, bids from
  \<open>rbegin()\<close> (largest price first), asks from \<open>begin()\<close>.
\<close>

definition GetBidLvls :: "Book \<Rightarrow> nat \<Rightarrow> PriceLvl list" where
  "GetBidLvls b numLvls = map (\<lambda>(px, lvl). CalcPriceLvl px lvl) (take numLvls (rev (bids b)))"

definition GetAskLvls :: "Book \<Rightarrow> nat \<Rightarrow> PriceLvl list" where
  "GetAskLvls b numLvls = map (\<lambda>(px, lvl). CalcPriceLvl px lvl) (take numLvls (offers b))"

text \<open>
  \<open>Book::GetBidLevelDepth\<close>: the loop from \<open>rbegin()\<close> with its \<open>uint32_t\<close> counter; the
  list argument is what is left of the reverse iteration.
\<close>

fun bid_depth_loop :: "LvlOrds \<Rightarrow> int \<Rightarrow> u32 \<Rightarrow> u32" where
  "bid_depth_loop [] px depth = 0"
| "bid_depth_loop ((k, lvl) # r) px depth =
     (if k = px then depth
      else if k < px then 0
      else bid_depth_loop r px (depth + 1))"

definition GetBidLevelDepth :: "Book \<Rightarrow> int \<Rightarrow> u32" where
  "GetBidLevelDepth b px = bid_depth_loop (rev (bids b)) px 0"

text \<open>
  \<open>Book::GetAskLevelDepth\<close>. \<open>lower_bound\<close> gives the position of the first entry whose
  key is not less than the price (the length of the list for \<open>end()\<close>); \<open>std::distance\<close>
  from \<open>begin()\<close> is that position, converted to \<open>uint32_t\<close>.
\<close>

fun lower_bound :: "int \<Rightarrow> 'v smap \<Rightarrow> nat" where
  "lower_bound px [] = 0"
| "lower_bound px ((k, v) # r) = (if k < px then Suc (lower_bound px r) else 0)"

definition GetAskLevelDepth :: "Book \<Rightarrow> int \<Rightarrow> u32" where
  "GetAskLevelDepth b px =
     (let it = lower_bound px (offers b) in
      if it = length (offers b) \<or> fst (offers b ! it) \<noteq> px then 0
      else of_nat it)"

text \<open>\<open>Book::GetSdOrds\<close>, and the write back through the reference it returns.\<close>

fun GetSdOrds :: "Book \<Rightarrow> Sd \<Rightarrow> error + LvlOrds" where
  "GetSdOrds b Sd_Ask = Inr (offers b)"
| "GetSdOrds b Sd_Bid = Inr (bids b)"
| "GetSdOrds b s = Inl (invalid_argument Invalid_side)"

fun PutSdOrds :: "Sd \<Rightarrow> LvlOrds \<Rightarrow> Book \<Rightarrow> Book" where
  "PutSdOrds Sd_Ask lvls b = b\<lparr>offers := lvls\<rparr>"
| "PutSdOrds Sd_Bid lvls b = b\<lparr>bids := lvls\<rparr>"
| "PutSdOrds s lvls b = b"

text \<open>\<open>Book::GetLvl\<close> throws when the level is absent.\<close>

definition GetLvl :: "Book \<Rightarrow> Sd \<Rightarrow> int \<Rightarrow> error + LvlOrdsInQ" where
  "GetLvl b s px =
     (case GetSdOrds b s of
        Inl e \<Rightarrow> Inl e
      | Inr lvls \<Rightarrow>
          (case map_of lvls px of
             None \<Rightarrow> Inl (invalid_argument (Access_unk_lvl s px))
           | Some lvl \<Rightarrow> Inr lvl))"

text \<open>
  A write to the queue behind the reference that \<open>GetLvl\<close> or \<open>GetOrInsLvl\<close> returned
  (\<open>emplace_back\<close>, \<open>erase\<close>, an assignment to an order's \<open>size\<close>).
\<close>

definition UpdLvl :: "Sd \<Rightarrow> int \<Rightarrow> (LvlOrdsInQ \<Rightarrow> LvlOrdsInQ) \<Rightarrow> Book \<Rightarrow> Book" where
  "UpdLvl s px f b =
     (case GetSdOrds b s of
        Inl e \<Rightarrow> b
      | Inr lvls \<Rightarrow> PutSdOrds s (smap_upd px f lvls) b)"

text \<open>\<open>Book::GetOrInsLvl\<close>: \<open>GetSdOrds(s)[px]\<close>; the book with the level present.\<close>

definition GetOrInsLvl :: "Book \<Rightarrow> Sd \<Rightarrow> int \<Rightarrow> error + Book" where
  "GetOrInsLvl b s px =
     (case GetSdOrds b s of
        Inl e \<Rightarrow> Inl e
      | Inr lvls \<Rightarrow> Inr (PutSdOrds s (smap_at px [] lvls) b))"

text \<open>\<open>Book::RemLvl\<close>.\<close>

definition RemLvl :: "Sd \<Rightarrow> int \<Rightarrow> Book \<Rightarrow> error + Book" where
  "RemLvl s px b =
     (case GetSdOrds b s of
        Inl e \<Rightarrow> Inl e
      | Inr lvls \<Rightarrow> Inr (PutSdOrds s (smap_erase px lvls) b))"

text \<open>
  \<open>Book::GetLvlOrd\<close>: \<open>std::find_if\<close>; the iterator is the position of the first order
  with the id, \<open>None\<close> for \<open>end()\<close>.
\<close>

fun GetLvlOrd :: "LvlOrdsInQ \<Rightarrow> u64 \<Rightarrow> nat option" where
  "GetLvlOrd [] ordId = None"
| "GetLvlOrd (o1 # r) ordId =
     (if orderId o1 = ordId then Some 0
      else map_option Suc (GetLvlOrd r ordId))"

text \<open>\<open>std::list::erase\<close> at a position.\<close>

definition erase_at :: "nat \<Rightarrow> 'a list \<Rightarrow> 'a list" where
  "erase_at i xs = take i xs @ drop (Suc i) xs"

text \<open>\<open>Book::Clear\<close>.\<close>

definition Book_Clear :: "Book \<Rightarrow> Book" where
  "Book_Clear b = b\<lparr>ordsById := Map.empty, offers := [], bids := []\<rparr>"

text \<open>
  The mutating operations return the exception, or the new book with the lines they wrote
  to \<open>std::cerr\<close>.

  \<open>Book::Add\<close>: the order is appended before the index is written, and a duplicate id
  throws after that.
\<close>

definition Book_Add :: "Book \<Rightarrow> MboSingle \<Rightarrow> error + Book \<times> warning list" where
  "Book_Add b m =
     (case GetOrInsLvl b (side m) (price m) of
        Inl e \<Rightarrow> Inl e
      | Inr b1 \<Rightarrow>
          let b2 = UpdLvl (side m) (price m) (\<lambda>lvl. lvl @ [m]) b1 in
          (case ordsById b2 (orderId m) of
             Some ps \<Rightarrow> Inl (invalid_argument (Dupe_ID (orderId m)))
           | None \<Rightarrow>
               Inr (b2\<lparr>ordsById := (ordsById b2)(orderId m \<mapsto>
                          \<lparr>ps_price = price m, ps_side = side m\<rparr>)\<rparr>, [])))"

text \<open>
  \<open>Book::Cancel\<close>. When the Cancel has emptied the queue, the source calls
  \<open>RemLvl(psIt->second.side, psIt->second.price)\<close> after \<open>ordsById_.erase(m.orderId)\<close> has
  erased the element \<open>psIt\<close> points to: the read goes through an invalidated iterator, and
  the language leaves the behaviour undefined. The model covers the executions in which the
  read yields some price and side and the call goes on with them: it takes what the read
  yields as the argument \<open>rd\<close> and assumes nothing about it. \<open>rd\<close> is used nowhere else.
\<close>

definition Book_Cancel :: "PxAndSd \<Rightarrow> Book \<Rightarrow> MboSingle \<Rightarrow> error + Book \<times> warning list" where
  "Book_Cancel rd b m =
     (case ordsById b (orderId m) of
        None \<Rightarrow> Inr (b, [Warn_cancel_unk_ID (orderId m)])
      | Some ps \<Rightarrow>
          (case GetLvl b (ps_side ps) (ps_price ps) of
             Inl e \<Rightarrow> Inl e
           | Inr lvl \<Rightarrow>
               (case GetLvlOrd lvl (orderId m) of
                  None \<Rightarrow> Inr (b, [IntErr_not_in_list (orderId m)])
                | Some i \<Rightarrow>
                    let capped = osize (lvl ! i) < osize m;
                        sz' = (if capped then 0 else osize (lvl ! i) - osize m);
                        w = (if capped then [Warn_partial_cancel (orderId m)] else [])
                    in
                      if sz' = 0 then
                        let b1 = b\<lparr>ordsById := (ordsById b)(orderId m := None)\<rparr>;
                            lvl' = erase_at i lvl;
                            b2 = UpdLvl (ps_side ps) (ps_price ps) (\<lambda>_. lvl') b1
                        in
                          if lvl' = [] then
                            (case RemLvl (ps_side rd) (ps_price rd) b2 of
                               Inl e \<Rightarrow> Inl e
                             | Inr b3 \<Rightarrow> Inr (b3, w))
                          else Inr (b2, w)
                      else
                        Inr (UpdLvl (ps_side ps) (ps_price ps)
                               (\<lambda>_. lvl[i := (lvl ! i)\<lparr>osize := sz'\<rparr>]) b, w))))"

text \<open>\<open>Book::Modify\<close>.\<close>

definition Book_Modify :: "Book \<Rightarrow> MboSingle \<Rightarrow> error + Book \<times> warning list" where
  "Book_Modify b m =
     (case ordsById b (orderId m) of
        None \<Rightarrow> Book_Add b m
      | Some ps \<Rightarrow>
          if ps_side ps \<noteq> side m then Inl (logic_error (Changed_side (orderId m)))
          else
            let prevPx = ps_price ps in
            (case GetLvl b (side m) prevPx of
               Inl e \<Rightarrow> Inl e
             | Inr prevLvl \<Rightarrow>
                 (case GetLvlOrd prevLvl (orderId m) of
                    None \<Rightarrow> Inr (b, [IntErr_not_in_prev_list (orderId m)])
                  | Some i \<Rightarrow>
                      if prevPx \<noteq> price m then
                        let b1 = b\<lparr>ordsById := (ordsById b)(orderId m \<mapsto>
                                     ps\<lparr>ps_price := price m\<rparr>)\<rparr>;
                            prevLvl' = erase_at i prevLvl;
                            b2 = UpdLvl (side m) prevPx (\<lambda>_. prevLvl') b1
                        in
                          (case (if prevLvl' = [] then RemLvl (side m) prevPx b2 else Inr b2) of
                             Inl e \<Rightarrow> Inl e
                           | Inr b3 \<Rightarrow>
                               (case GetOrInsLvl b3 (side m) (price m) of
                                  Inl e \<Rightarrow> Inl e
                                | Inr b4 \<Rightarrow>
                                    Inr (UpdLvl (side m) (price m)
                                           (\<lambda>newLvl. newLvl @ [m]) b4, [])))
                      else if osize (prevLvl ! i) < osize m then
                        Inr (UpdLvl (side m) prevPx (\<lambda>_. erase_at i prevLvl @ [m]) b, [])
                      else
                        Inr (UpdLvl (side m) prevPx
                               (\<lambda>_. prevLvl[i := (prevLvl ! i)\<lparr>osize := osize m\<rparr>]) b, []))))"

text \<open>\<open>Book::Apply\<close>; \<open>rd\<close> is passed on to \<open>Book::Cancel\<close>.\<close>

definition Book_Apply :: "PxAndSd \<Rightarrow> Book \<Rightarrow> MboSingle \<Rightarrow> error + Book \<times> warning list" where
  "Book_Apply rd b m =
     (case action m of
        Act_Clear \<Rightarrow> Inr (Book_Clear b, [])
      | Act_Add \<Rightarrow> Book_Add b m
      | Act_Cancel \<Rightarrow> Book_Cancel rd b m
      | Act_Modify \<Rightarrow> Book_Modify b m
      | Act_Trade \<Rightarrow> Inr (b, [])
      | Act_Fill \<Rightarrow> Inr (b, [])
      | Act_None \<Rightarrow> Inr (b, [])
      | Act_Other c \<Rightarrow> Inr (b, [Warn_unknown_action (action m)]))"

text \<open>
  \<open>Book::ProcSynthTrade\<close>. The \<open>while\<close> loop walks the queue from its head with the
  remaining size and the index; it returns the queue, the remaining size and the index
  it ends with.
\<close>

fun synth_loop :: "LvlOrdsInQ \<Rightarrow> u32 \<Rightarrow> OrdsById \<Rightarrow> LvlOrdsInQ \<times> u32 \<times> OrdsById" where
  "synth_loop [] remSz idx = ([], remSz, idx)"
| "synth_loop (curOrd # r) remSz idx =
     (if remSz > 0 then
        (if osize curOrd \<le> remSz
         then synth_loop r (remSz - osize curOrd) (idx(orderId curOrd := None))
         else (curOrd\<lparr>osize := osize curOrd - remSz\<rparr> # r, 0, idx))
      else (curOrd # r, remSz, idx))"

definition Book_ProcSynthTrade :: "Book \<Rightarrow> int \<Rightarrow> u32 \<Rightarrow> Sd \<Rightarrow> error + Book \<times> warning list" where
  "Book_ProcSynthTrade b px sz sideAff =
     (case GetSdOrds b sideAff of
        Inl e \<Rightarrow> Inl e
      | Inr affLvls \<Rightarrow>
          (case map_of affLvls px of
             None \<Rightarrow> Inr (b, [Warn_synth_no_lvl sideAff px sz])
           | Some ordsAtLvl \<Rightarrow>
               (case synth_loop ordsAtLvl sz (ordsById b) of
                  (ordsAtLvl', remSz, idx') \<Rightarrow>
                    let b1 = UpdLvl sideAff px (\<lambda>_. ordsAtLvl') (b\<lparr>ordsById := idx'\<rparr>) in
                    if ordsAtLvl' = [] then
                      (case RemLvl sideAff px b1 of
                         Inl e \<Rightarrow> Inl e
                       | Inr b2 \<Rightarrow> Inr (b2, []))
                    else Inr (b1, []))))"

subsection \<open>The market\<close>

text \<open>
  \<open>Market::books_\<close> is an \<open>unordered_map\<close> of \<open>unordered_map\<close>s. The outer one is only
  searched: a partial map. The inner one is also iterated (in an order the language leaves
  open): an association list in the order of iteration, a new book going last.
\<close>

type_synonym PubBooks = "(u16 \<times> Book) list"

record Market =
  books :: "u32 \<rightharpoonup> PubBooks"

definition Market_init :: Market where
  "Market_init = \<lparr>books = Map.empty\<rparr>"

fun pb_put :: "u16 \<Rightarrow> Book \<Rightarrow> PubBooks \<Rightarrow> PubBooks" where
  "pb_put k v [] = [(k, v)]"
| "pb_put k v ((k', v') # r) = (if k = k' then (k, v) # r else (k', v') # pb_put k v r)"

text \<open>
  The body of the inner loop of \<open>Market::GetAggBidLvls\<close> / \<open>GetAggAskLvls\<close>: three
  \<open>operator[]\<close> accesses to the aggregate of the level's price.
\<close>

definition agg_lvl :: "PriceLvl \<Rightarrow> PriceLvl smap \<Rightarrow> PriceLvl smap" where
  "agg_lvl lvl agg =
     (if IsEmpty lvl then agg
      else
        let a1 = smap_upd (lprice lvl) (\<lambda>a. a\<lparr>lsize := lsize a + lsize lvl\<rparr>)
                   (smap_at (lprice lvl) (PriceLvl_init UNDEFINED_PRICE) agg);
            a2 = smap_upd (lprice lvl) (\<lambda>a. a\<lparr>lcount := lcount a + lcount lvl\<rparr>)
                   (smap_at (lprice lvl) (PriceLvl_init UNDEFINED_PRICE) a1)
        in smap_upd (lprice lvl) (\<lambda>a. a\<lparr>lprice := lprice lvl\<rparr>)
             (smap_at (lprice lvl) (PriceLvl_init UNDEFINED_PRICE) a2))"

definition GetAggBidLvls :: "Market \<Rightarrow> u32 \<Rightarrow> nat \<Rightarrow> PriceLvl list" where
  "GetAggBidLvls mk instr numLvls =
     (let aggBids =
        (case books mk instr of
           None \<Rightarrow> []
         | Some pubs \<Rightarrow>
             fold (\<lambda>(pub, pb_book) agg. fold agg_lvl (GetBidLvls pb_book numLvls) agg) pubs [])
      in map snd (take numLvls (rev aggBids)))"

definition GetAggAskLvls :: "Market \<Rightarrow> u32 \<Rightarrow> nat \<Rightarrow> PriceLvl list" where
  "GetAggAskLvls mk instr numLvls =
     (let aggAsks =
        (case books mk instr of
           None \<Rightarrow> []
         | Some pubs \<Rightarrow>
             fold (\<lambda>(pub, pb_book) agg. fold agg_lvl (GetAskLvls pb_book numLvls) agg) pubs [])
      in map snd (take numLvls aggAsks))"

text \<open>\<open>Market::GetLevelDepth\<close>.\<close>

definition GetLevelDepth :: "Market \<Rightarrow> u32 \<Rightarrow> u16 \<Rightarrow> int \<Rightarrow> Sd \<Rightarrow> u32" where
  "GetLevelDepth mk instr pub px s =
     (case books mk instr of
        None \<Rightarrow> 0
      | Some pubs \<Rightarrow>
          (case map_of pubs pub of
             None \<Rightarrow> 0
           | Some bk \<Rightarrow>
               if s = Sd_Bid then GetBidLevelDepth bk px
               else if s = Sd_Ask then GetAskLevelDepth bk px
               else 0))"

text \<open>
  \<open>Market::Apply\<close>: \<open>books_[m.instrId][m.pubId]\<close> creates the book when it is absent;
  \<open>rd\<close> is passed on to \<open>Book::Apply\<close>.
\<close>

definition Market_Apply ::
  "PxAndSd \<Rightarrow> Market \<Rightarrow> MboSingle \<Rightarrow> error + Market \<times> warning list" where
  "Market_Apply rd mk m =
     (let pubs = (case books mk (instrId m) of None \<Rightarrow> [] | Some pubs \<Rightarrow> pubs);
          bk = (case map_of pubs (pubId m) of None \<Rightarrow> Book_init | Some bk \<Rightarrow> bk)
      in
        case Book_Apply rd bk m of
          Inl e \<Rightarrow> Inl e
        | Inr (bk', w) \<Rightarrow>
            Inr (mk\<lparr>books := (books mk)(instrId m \<mapsto> pb_put (pubId m) bk' pubs)\<rparr>, w))"

text \<open>\<open>Market::ProcSynthTrade\<close>.\<close>

definition Market_ProcSynthTrade ::
  "Market \<Rightarrow> u32 \<Rightarrow> u16 \<Rightarrow> int \<Rightarrow> u32 \<Rightarrow> Sd \<Rightarrow> error + Market \<times> warning list" where
  "Market_ProcSynthTrade mk instr pub px sz sideAff =
     (case books mk instr of
        None \<Rightarrow> Inr (mk, [Err_synth_no_instr instr])
      | Some pubs \<Rightarrow>
          (case map_of pubs pub of
             None \<Rightarrow> Inr (mk, [Err_synth_no_book instr pub])
           | Some bk \<Rightarrow>
               (case Book_ProcSynthTrade bk px sz sideAff of
                  Inl e \<Rightarrow> Inl e
                | Inr (bk', w) \<Rightarrow>
                    Inr (mk\<lparr>books := (books mk)(instr \<mapsto> pb_put pub bk' pubs)\<rparr>, w))))"

subsection \<open>The loop of \<open>main\<close>\<close>

text \<open>
  What \<open>WriteMbpRow\<close> is given for a row (how it prints the row is outside the model), and
  the variables of \<open>main\<close> that live across iterations, with the two streams.
\<close>

record MbpRow =
  rIdx :: int
  mi :: MboSingle
  depth_val :: u32
  bl :: "PriceLvl list"
  al :: "PriceLvl list"

record Driver =
  market :: Market
  pendingTFs :: "u64 \<rightharpoonup> MboSingle"
  mbpRowIdx :: int
  mbpOs :: "MbpRow list"
  cerr :: "warning list"

definition Driver_init :: Driver where
  "Driver_init = \<lparr>market = Market_init, pendingTFs = Map.empty, mbpRowIdx = 0, mbpOs = [],
     cerr = []\<rparr>"

text \<open>The two aggregate queries and \<open>WriteMbpRow\<close> that end an iteration.\<close>

definition write_row :: "Driver \<Rightarrow> MboSingle \<Rightarrow> u32 \<Rightarrow> Driver" where
  "write_row st m current_depth =
     st\<lparr>mbpOs := mbpOs st @
           [\<lparr>rIdx = mbpRowIdx st, mi = m, depth_val = current_depth,
             bl = GetAggBidLvls (market st) (instrId m) 10,
             al = GetAggAskLvls (market st) (instrId m) 10\<rparr>],
        mbpRowIdx := mbpRowIdx st + 1\<rparr>"

text \<open>
  One iteration of the \<open>while\<close> loop of \<open>main\<close> on a decoded event. An exception of
  \<open>market.Apply\<close> leaves \<open>main\<close> (\<open>Inl\<close>); one of \<open>market.ProcSynthTrade\<close> is caught and
  logged. The argument \<open>rd\<close> is what the read through the erased iterator in
  \<open>Book::Cancel\<close> yields, should this iteration come to it.
\<close>

definition process :: "PxAndSd \<Rightarrow> Driver \<Rightarrow> MboSingle \<Rightarrow> error + Driver" where
  "process rd st m =
     (if action m = Act_Trade \<and> side m = Sd_None then Inr (write_row st m 0)
      else if action m = Act_Trade \<or> action m = Act_Fill then
        Inr (write_row (st\<lparr>pendingTFs := (pendingTFs st)(orderId m \<mapsto> m)\<rparr>) m 0)
      else if action m = Act_Cancel then
        (case pendingTFs st (orderId m) of
           Some origTFM \<Rightarrow>
             let st1 = st\<lparr>pendingTFs := (pendingTFs st)(orderId m := None)\<rparr> in
             if side origTFM = Sd_Ask \<or> side origTFM = Sd_Bid then
               let sideAff = (if side origTFM = Sd_Ask then Sd_Bid else Sd_Ask);
                   (mk', w) =
                     (case Market_ProcSynthTrade (market st1) (instrId m) (pubId m)
                             (price origTFM) (osize origTFM) sideAff of
                        Inl e \<Rightarrow> (market st1, [Err_synth_trade (orderId m) e])
                      | Inr r \<Rightarrow> r);
                   st2 = st1\<lparr>market := mk', cerr := cerr st1 @ w\<rparr>
               in Inr (write_row st2 m
                         (GetLevelDepth mk' (instrId m) (pubId m) (price origTFM) sideAff))
             else
               Inr (write_row (st1\<lparr>cerr := cerr st1 @ [Warn_TF_side_none (orderId m)]\<rparr>) m 0)
         | None \<Rightarrow>
             (case Market_Apply rd (market st) m of
                Inl e \<Rightarrow> Inl e
              | Inr (mk', w) \<Rightarrow>
                  Inr (write_row (st\<lparr>market := mk', cerr := cerr st @ w\<rparr>) m
                         (GetLevelDepth mk' (instrId m) (pubId m) (price m) (side m)))))
      else
        (case Market_Apply rd (market st) m of
           Inl e \<Rightarrow> Inl e
         | Inr (mk', w) \<Rightarrow>
             Inr (write_row (st\<lparr>market := mk', cerr := cerr st @ w\<rparr>) m
                    (if action m = Act_Add \<or> action m = Act_Modify
                     then GetLevelDepth mk' (instrId m) (pubId m) (price m) (side m)
                     else 0))))"

text \<open>
  The loop over the decoded lines; it ends at the first exception. Each event comes with
  the value \<open>rd\<close> of its iteration.
\<close>

fun run :: "Driver \<Rightarrow> (PxAndSd \<times> MboSingle) list \<Rightarrow> error + Driver" where
  "run st [] = Inr st"
| "run st ((rd, m) # ms) =
     (case process rd st m of Inl e \<Rightarrow> Inl e | Inr st' \<Rightarrow> run st' ms)"

section \<open>Notions the properties are stated with\<close>

text \<open>
  The level of a side at a price, as \<open>GetSdOrds(s).find(px)\<close> sees it, and the condition
  that both price maps are ordered by key, which \<open>std::map\<close> maintains.
\<close>

definition lv :: "Book \<Rightarrow> Sd \<Rightarrow> int \<Rightarrow> LvlOrdsInQ option" where
  "lv b s px = (case GetSdOrds b s of Inl e \<Rightarrow> None | Inr lvls \<Rightarrow> map_of lvls px)"

definition sides_ok :: "Book \<Rightarrow> bool" where
  "sides_ok b \<longleftrightarrow> smap_ok (bids b) \<and> smap_ok (offers b)"

text \<open>
  The agreement of the index with the queues: every level present is non-empty, no id
  occurs twice in a queue, every order in the queue of a side and price is recorded in the
  index under that price and side, and every id of the index is the id of an order in the
  queue it is recorded for.
\<close>

definition index_inv :: "(Sd \<Rightarrow> int \<Rightarrow> LvlOrdsInQ option) \<Rightarrow> OrdsById \<Rightarrow> bool" where
  "index_inv L I \<longleftrightarrow>
     (\<forall>s px q. L s px = Some q \<longrightarrow>
        q \<noteq> [] \<and> distinct (map orderId q)
      \<and> (\<forall>e \<in> set q. I (orderId e) = Some \<lparr>ps_price = px, ps_side = s\<rparr>))
   \<and> (\<forall>ordId ps. I ordId = Some ps \<longrightarrow>
        (\<exists>q. L (ps_side ps) (ps_price ps) = Some q \<and> ordId \<in> orderId ` set q))"

definition book_inv :: "Book \<Rightarrow> bool" where
  "book_inv b \<longleftrightarrow> sides_ok b \<and> index_inv (lv b) (ordsById b)"

text \<open>The position of the first occurrence of an element in a list.\<close>

fun index_of :: "'a \<Rightarrow> 'a list \<Rightarrow> nat option" where
  "index_of x [] = None"
| "index_of x (y # ys) = (if x = y then Some 0 else map_option Suc (index_of x ys))"

text \<open>
  The prices of the levels of a side, best first: bids from the largest price down, asks
  from the smallest price up.
\<close>

definition bid_prices :: "Book \<Rightarrow> int list" where
  "bid_prices b = rev (sorted_list_of_set (fst ` set (bids b)))"

definition ask_prices :: "Book \<Rightarrow> int list" where
  "ask_prices b = sorted_list_of_set (fst ` set (offers b))"

text \<open>
  The mutations a book receives: an event through \<open>Book::Apply\<close> (with the value \<open>rd\<close> of
  that call), or a synthetic trade through \<open>Book::ProcSynthTrade\<close>; and a book after a
  sequence of them, none of which threw.
\<close>

datatype BookOp = Event PxAndSd MboSingle | SynthTrade int u32 Sd

fun apply_op :: "Book \<Rightarrow> BookOp \<Rightarrow> error + Book \<times> warning list" where
  "apply_op b (Event rd m) = Book_Apply rd b m"
| "apply_op b (SynthTrade px sz s) = Book_ProcSynthTrade b px sz s"

fun run_book :: "Book \<Rightarrow> BookOp list \<Rightarrow> error + Book" where
  "run_book b [] = Inr b"
| "run_book b (x # xs) =
     (case apply_op b x of Inl e \<Rightarrow> Inl e | Inr (b', w) \<Rightarrow> run_book b' xs)"

text \<open>
  That the read through the erased iterator in \<open>Book::Cancel\<close> yields the record the index
  held for the order of the event (nothing in the source or the language ensures it), and
  that it does so at every event of a sequence of mutations.
\<close>

definition read_recorded :: "PxAndSd \<Rightarrow> Book \<Rightarrow> MboSingle \<Rightarrow> bool" where
  "read_recorded rd b m \<longleftrightarrow>
     action m \<noteq> Act_Cancel \<or> ordsById b (orderId m) = None \<or> ordsById b (orderId m) = Some rd"

fun reads_recorded :: "Book \<Rightarrow> BookOp list \<Rightarrow> bool" where
  "reads_recorded b [] = True"
| "reads_recorded b (x # xs) =
     ((case x of Event rd m \<Rightarrow> read_recorded rd b m | SynthTrade px sz s \<Rightarrow> True)
      \<and> (case apply_op b x of Inl e \<Rightarrow> True | Inr (b', w) \<Rightarrow> reads_recorded b' xs))"

text \<open>
  The ids of the orders in the queues of both sides; that the orders of the queues of a side
  are recorded in the index under the price of their queue and that side; and the agreement
  of the index with the queues.
\<close>

definition book_ids :: "Book \<Rightarrow> u64 set" where
  "book_ids b = orderId ` (\<Union>(px, q) \<in> set (bids b) \<union> set (offers b). set q)"

definition queues_recorded :: "Book \<Rightarrow> Sd \<Rightarrow> LvlOrds \<Rightarrow> bool" where
  "queues_recorded b s lvls \<longleftrightarrow>
     (\<forall>(px, q) \<in> set lvls. \<forall>e \<in> set q.
        ordsById b (orderId e) = Some \<lparr>ps_price = px, ps_side = s\<rparr>)"

definition index_agrees :: "Book \<Rightarrow> bool" where
  "index_agrees b \<longleftrightarrow>
     dom (ordsById b) = book_ids b
   \<and> queues_recorded b Sd_Bid (bids b) \<and> queues_recorded b Sd_Ask (offers b)"

text \<open>The sum of the sizes of the orders of a queue, as a number.\<close>

definition level_total :: "LvlOrdsInQ \<Rightarrow> nat" where
  "level_total q = sum_list (map (\<lambda>e. unat (osize e)) q)"


definition levels_nonempty :: "Book \<Rightarrow> bool" where
  "levels_nonempty b \<longleftrightarrow> list_all (\<lambda>(px, q). q \<noteq> []) (bids b @ offers b)"



text \<open>
  The summary of a level: its price, the sum of the sizes of its orders and their number, as
  \<open>uint32_t\<close> values.
\<close>

definition level_summary :: "int \<Rightarrow> LvlOrdsInQ \<Rightarrow> PriceLvl" where
  "level_summary px q = \<lparr>lprice = px, lsize = sum_list (map osize q), lcount = of_nat (length q)\<rparr>"

text \<open>
  The levels the publishers of an instrument contribute: the first \<open>n\<close> levels of the side
  of each publisher's book, best first (none when the instrument has no book).
\<close>

definition pub_bid_lvls :: "Market \<Rightarrow> u32 \<Rightarrow> nat \<Rightarrow> PriceLvl list" where
  "pub_bid_lvls mk instr n =
     (case books mk instr of
        None \<Rightarrow> []
      | Some pubs \<Rightarrow> concat (map (\<lambda>(pub, bk). GetBidLvls bk n) pubs))"

definition pub_ask_lvls :: "Market \<Rightarrow> u32 \<Rightarrow> nat \<Rightarrow> PriceLvl list" where
  "pub_ask_lvls mk instr n =
     (case books mk instr of
        None \<Rightarrow> []
      | Some pubs \<Rightarrow> concat (map (\<lambda>(pub, bk). GetAskLvls bk n) pubs))"

text \<open>
  The aggregate of a list of levels at a price: the sums of the sizes and of the counts of
  the levels of that price; the distinct prices of the list in increasing order; and the
  aggregates of the \<open>n\<close> largest prices from the largest down, and of the \<open>n\<close> smallest
  prices from the smallest up.
\<close>

definition agg_at :: "PriceLvl list \<Rightarrow> int \<Rightarrow> PriceLvl" where
  "agg_at ls p =
     \<lparr>lprice = p,
      lsize = sum_list (map lsize (filter (\<lambda>l. lprice l = p) ls)),
      lcount = sum_list (map lcount (filter (\<lambda>l. lprice l = p) ls))\<rparr>"

definition prices_asc :: "PriceLvl list \<Rightarrow> int list" where
  "prices_asc ls = sort (remdups (map lprice ls))"

definition aggregate_desc :: "nat \<Rightarrow> PriceLvl list \<Rightarrow> PriceLvl list" where
  "aggregate_desc n ls = map (agg_at ls) (take n (rev (prices_asc ls)))"

definition aggregate_asc :: "nat \<Rightarrow> PriceLvl list \<Rightarrow> PriceLvl list" where
  "aggregate_asc n ls = map (agg_at ls) (take n (prices_asc ls))"

text \<open>The aggregates of a list of levels as a map from the prices that occur.\<close>

definition agg_map :: "PriceLvl list \<Rightarrow> int \<Rightarrow> PriceLvl option" where
  "agg_map seen p = (if p \<in> lprice ` set seen then Some (agg_at seen p) else None)"

text \<open>The side a trade or fill rests against: the opposite of the side it reports.\<close>

definition opposite :: "Sd \<Rightarrow> Sd" where
  "opposite s = (if s = Sd_Ask then Sd_Bid else Sd_Ask)"

subsection \<open>Example data\<close>

text \<open>An event of publisher 1 on instrument 42 with the given action, id, side, price, size.\<close>

definition ev :: "Act \<Rightarrow> u64 \<Rightarrow> Sd \<Rightarrow> int \<Rightarrow> u32 \<Rightarrow> MboSingle" where
  "ev a oid s px sz =
     \<lparr>tsRecv = ''t1'', tsEvent = ''t0'', rtype = 160, pubId = 1, instrId = 42, action = a,
      side = s, price = px, osize = sz, chanId = 0, orderId = oid, flags = 0, tsInDelta = 0,
      sequence = 0, symbol = ''X''\<rparr>"

text \<open>A value of the read through the erased iterator that names no level of a book.\<close>

definition rd_none :: PxAndSd where
  "rd_none = \<lparr>ps_price = 0, ps_side = Sd_None\<rparr>"

text \<open>A book with two bid levels and two ask levels.\<close>

definition book_two_sided :: Book where
  "book_two_sided =
     \<lparr>ordsById = [1 \<mapsto> \<lparr>ps_price = 99, ps_side = Sd_Bid\<rparr>,
                  2 \<mapsto> \<lparr>ps_price = 100, ps_side = Sd_Bid\<rparr>,
                  3 \<mapsto> \<lparr>ps_price = 101, ps_side = Sd_Ask\<rparr>,
                  4 \<mapsto> \<lparr>ps_price = 102, ps_side = Sd_Ask\<rparr>],
      offers = [(101, [ev Act_Add 3 Sd_Ask 101 5]), (102, [ev Act_Add 4 Sd_Ask 102 6])],
      bids = [(99, [ev Act_Add 1 Sd_Bid 99 7]), (100, [ev Act_Add 2 Sd_Bid 100 8])]\<rparr>"

text \<open>The book after the Add of order 10, a bid of 4 at 99.5.\<close>

definition book_one_bid :: Book where
  "book_one_bid =
     \<lparr>ordsById = [10 \<mapsto> \<lparr>ps_price = 99500000000, ps_side = Sd_Bid\<rparr>],
      offers = [],
      bids = [(99500000000, [ev Act_Add 10 Sd_Bid 99500000000 4])]\<rparr>"

text \<open>
  A sequence of mutations (two asks queue at 101, the bid moves from 100 to 99, a synthetic
  trade takes the first ask and part of the second, a Cancel reduces the bid) and the book
  it ends in.
\<close>

definition ops_example :: "BookOp list" where
  "ops_example =
     [Event rd_none (ev Act_Add 1 Sd_Bid 100 5), Event rd_none (ev Act_Add 2 Sd_Ask 101 3),
      Event rd_none (ev Act_Add 3 Sd_Ask 101 4),
      Event rd_none (ev Act_Modify 1 Sd_Bid 99 5), SynthTrade 101 4 Sd_Ask,
      Event \<lparr>ps_price = 99, ps_side = Sd_Bid\<rparr> (ev Act_Cancel 1 Sd_None 0 2)]"

definition book_example :: Book where
  "book_example =
    \<lparr>ordsById = [1 \<mapsto> \<lparr>ps_price = 99, ps_side = Sd_Bid\<rparr>, 3 \<mapsto> \<lparr>ps_price = 101, ps_side = Sd_Ask\<rparr>],
     offers = [(101, [ev Act_Add 3 Sd_Ask 101 3])],
     bids = [(99, [ev Act_Modify 1 Sd_Bid 99 3])]\<rparr>"


definition book_one_order :: Book where
  "book_one_order =
     \<lparr>ordsById = [1 \<mapsto> \<lparr>ps_price = 100, ps_side = Sd_Bid\<rparr>],
      offers = [],
      bids = [(100, [ev Act_Add 1 Sd_Bid 100 5])]\<rparr>"


text \<open>
  The book with one bid of size 5 at 100 after a Cancel of that bid whose read through the
  erased iterator named the bid level 0: the emptied level 100 is still there.
\<close>

definition book_empty_level :: Book where
  "book_empty_level = \<lparr>ordsById = Map.empty, offers = [], bids = [(100, [])]\<rparr>"

text \<open>
  Two bids, order 1 of size 5 at 100 and order 2 of size 3 at 99; and the book after the
  Cancel of order 1 whose read through the erased iterator named the bid level 99: order 2
  is in the index and in no queue.
\<close>

definition ops_two_bids :: "BookOp list" where
  "ops_two_bids =
     [Event rd_none (ev Act_Add 1 Sd_Bid 100 5), Event rd_none (ev Act_Add 2 Sd_Bid 99 3)]"

definition book_lost_level :: Book where
  "book_lost_level =
     \<lparr>ordsById = [2 \<mapsto> \<lparr>ps_price = 99, ps_side = Sd_Bid\<rparr>],
      offers = [],
      bids = [(100, [])]\<rparr>"

text \<open>
  The markets after an Add of an ask with an undefined price, and after a second ask at 101,
  both of publisher 1 on instrument 42.
\<close>

definition market_undef_1 :: Market where
  "market_undef_1 =
     \<lparr>books = [42 \<mapsto> [(1,
        \<lparr>ordsById = [1 \<mapsto> \<lparr>ps_price = UNDEFINED_PRICE, ps_side = Sd_Ask\<rparr>],
         offers = [(UNDEFINED_PRICE, [ev Act_Add 1 Sd_Ask UNDEFINED_PRICE 5])],
         bids = []\<rparr>)]]\<rparr>"

definition market_undef :: Market where
  "market_undef =
     \<lparr>books = [42 \<mapsto> [(1,
        \<lparr>ordsById = [1 \<mapsto> \<lparr>ps_price = UNDEFINED_PRICE, ps_side = Sd_Ask\<rparr>,
                     2 \<mapsto> \<lparr>ps_price = 101, ps_side = Sd_Ask\<rparr>],
         offers = [(UNDEFINED_PRICE, [ev Act_Add 1 Sd_Ask UNDEFINED_PRICE 5]),
                   (101, [ev Act_Add 2 Sd_Ask 101 3])],
         bids = []\<rparr>)]]\<rparr>"

text \<open>
  Instrument 42 with two publishers: publisher 1 bids 3 at 100.0; publisher 2 bids 2 at 100.0
  and 1 at 99.5.
\<close>

definition market_two_pubs :: Market where
  "market_two_pubs =
     \<lparr>books = [42 \<mapsto>
        [(1, \<lparr>ordsById = [1 \<mapsto> \<lparr>ps_price = 100000000000, ps_side = Sd_Bid\<rparr>],
              offers = [],
              bids = [(100000000000, [ev Act_Add 1 Sd_Bid 100000000000 3])]\<rparr>),
         (2, \<lparr>ordsById = [2 \<mapsto> \<lparr>ps_price = 100000000000, ps_side = Sd_Bid\<rparr>,
                           3 \<mapsto> \<lparr>ps_price = 99500000000, ps_side = Sd_Bid\<rparr>],
              offers = [],
              bids = [(99500000000, [(ev Act_Add 3 Sd_Bid 99500000000 1)\<lparr>pubId := 2\<rparr>]),
                      (100000000000, [(ev Act_Add 2 Sd_Bid 100000000000 2)\<lparr>pubId := 2\<rparr>])]\<rparr>)]]\<rparr>"

section \<open>Properties\<close>

subsection \<open>Sorted association lists\<close>

lemma smap_ok_keys: "smap_ok m \<Longrightarrow> sorted_list_of_set (fst ` set m) = map fst m"
  unfolding smap_ok_def
  by (metis list.set_map sorted_list_of_set.idem_if_sorted_distinct strict_sorted_iff)

lemma index_of_None: "x \<notin> set ys \<Longrightarrow> index_of x ys = None"
  by (induction ys) auto

lemma index_of_lt: "index_of x ys = Some i \<Longrightarrow> i < length ys \<and> ys ! i = x"
  by (induction ys arbitrary: i) (auto split: if_splits)

subsection \<open>Depth queries\<close>

lemma bid_depth_loop_index:
  "sorted_wrt (>) (map fst l) \<Longrightarrow>
   bid_depth_loop l px d = (case index_of px (map fst l) of None \<Rightarrow> 0 | Some i \<Rightarrow> d + of_nat i)"
proof (induction l arbitrary: d)
  case Nil
  then show ?case by simp
next
  case (Cons a l)
  obtain k q where a: "a = (k, q)" by (cases a)
  show ?case
  proof (cases "k = px")
    case True
    then show ?thesis using a by simp
  next
    case False
    show ?thesis
    proof (cases "k < px")
      case True
      with Cons.prems a have "px \<notin> set (map fst l)" by auto
      then have "index_of px (map fst l) = None" by (rule index_of_None)
      with True False a show ?thesis by simp
    next
      case ge: False
      from Cons.prems have "sorted_wrt (>) (map fst l)" by simp
      from Cons.IH[OF this, of "d + 1"] ge False a show ?thesis
        by (simp split: option.splits)
    qed
  qed
qed

lemma ask_lower_bound_index:
  "sorted_wrt (<) (map fst l) \<Longrightarrow>
   (if lower_bound px l = length l \<or> fst (l ! lower_bound px l) \<noteq> px then None
    else Some (lower_bound px l))
   = index_of px (map fst l)"
proof (induction l)
  case Nil
  then show ?case by simp
next
  case (Cons a l)
  obtain k q where a: "a = (k, q)" by (cases a)
  show ?case
  proof (cases "k < px")
    case True
    from Cons.prems have "sorted_wrt (<) (map fst l)" by simp
    from Cons.IH[OF this, symmetric] True a show ?thesis
      by simp
  next
    case False
    show ?thesis
    proof (cases "k = px")
      case True
      then show ?thesis using a by simp
    next
      case ne: False
      with False Cons.prems a have "px \<notin> set (map fst l)" by auto
      then have "index_of px (map fst l) = None" by (rule index_of_None)
      with False ne a show ?thesis by simp
    qed
  qed
qed

text \<open>
  C5. In a book whose two price maps are ordered by key, \<open>GetBidLevelDepth b px\<close> is the
  zero-based position of \<open>px\<close> among the bid prices taken from the largest down, and 0 when
  no bid level has that price; \<open>GetAskLevelDepth b px\<close> is the position among the ask prices
  taken from the smallest up, and 0 when no ask level has that price. The result is a
  \<open>uint32_t\<close>: it is the position as a 32-bit value, and its numeric value is the position
  itself in a side with fewer than \<open>2^32\<close> levels.
\<close>

theorem depth_is_best_first_index:
  assumes "smap_ok (bids b)" and "smap_ok (offers b)"
  shows "GetBidLevelDepth b px =
           (case index_of px (bid_prices b) of None \<Rightarrow> 0 | Some i \<Rightarrow> of_nat i)
       \<and> GetAskLevelDepth b px =
           (case index_of px (ask_prices b) of None \<Rightarrow> 0 | Some i \<Rightarrow> of_nat i)
       \<and> (length (bids b) < 2 ^ 32 \<longrightarrow> unat (GetBidLevelDepth b px) =
           (case index_of px (bid_prices b) of None \<Rightarrow> 0 | Some i \<Rightarrow> i))
       \<and> (length (offers b) < 2 ^ 32 \<longrightarrow> unat (GetAskLevelDepth b px) =
           (case index_of px (ask_prices b) of None \<Rightarrow> 0 | Some i \<Rightarrow> i))"
proof -
  have bp: "bid_prices b = map fst (rev (bids b))"
    using assms(1) by (simp add: bid_prices_def smap_ok_keys rev_map)
  have ap: "ask_prices b = map fst (offers b)"
    using assms(2) by (simp add: ask_prices_def smap_ok_keys)
  have "sorted_wrt (>) (map fst (rev (bids b)))"
    using assms(1) unfolding smap_ok_def by (simp add: rev_map[symmetric] sorted_wrt_rev)
  from bid_depth_loop_index[OF this, of px 0]
  have B: "GetBidLevelDepth b px =
           (case index_of px (bid_prices b) of None \<Rightarrow> 0 | Some i \<Rightarrow> of_nat i)"
    by (simp add: GetBidLevelDepth_def bp split: option.splits)
  from ask_lower_bound_index[of "offers b" px] assms(2)
  have A: "GetAskLevelDepth b px =
           (case index_of px (ask_prices b) of None \<Rightarrow> 0 | Some i \<Rightarrow> of_nat i)"
    unfolding GetAskLevelDepth_def ap smap_ok_def Let_def
    by (auto split: option.splits if_splits)
  have UB: "unat (GetBidLevelDepth b px) =
           (case index_of px (bid_prices b) of None \<Rightarrow> 0 | Some i \<Rightarrow> i)"
    if "length (bids b) < 2 ^ 32"
  proof (cases "index_of px (bid_prices b)")
    case None
    then show ?thesis using B by simp
  next
    case (Some i)
    then have "i < length (bids b)" using index_of_lt[OF Some] bp by simp
    with that have "i < 2 ^ 32" by simp
    then have "unat (of_nat i :: u32) = i" by (simp add: unat_of_nat)
    then show ?thesis using B Some by simp
  qed
  have UA: "unat (GetAskLevelDepth b px) =
           (case index_of px (ask_prices b) of None \<Rightarrow> 0 | Some i \<Rightarrow> i)"
    if "length (offers b) < 2 ^ 32"
  proof (cases "index_of px (ask_prices b)")
    case None
    then show ?thesis using A by simp
  next
    case (Some i)
    then have "i < length (offers b)" using index_of_lt[OF Some] ap by simp
    with that have "i < 2 ^ 32" by simp
    then have "unat (of_nat i :: u32) = i" by (simp add: unat_of_nat)
    then show ?thesis using A Some by simp
  qed
  show ?thesis using A B UA UB by blast
qed

theorem depth_is_best_first_index_witness:
  "index_of 99 (bid_prices book_two_sided) = Some 1
   \<and> unat (GetBidLevelDepth book_two_sided 99) = 1
   \<and> index_of 102 (ask_prices book_two_sided) = Some 1
   \<and> unat (GetAskLevelDepth book_two_sided 102) = 1
   \<and> index_of 98 (bid_prices book_two_sided) = None
   \<and> GetBidLevelDepth book_two_sided 98 = 0
   \<and> index_of 103 (ask_prices book_two_sided) = None
   \<and> GetAskLevelDepth book_two_sided 103 = 0"
proof -
  have h1: "smap_ok (bids book_two_sided)"
    by (simp add: smap_ok_def book_two_sided_def)
  have h2: "smap_ok (offers book_two_sided)"
    by (simp add: smap_ok_def book_two_sided_def)
  have bp: "bid_prices book_two_sided = [100, 99]"
    by (simp add: bid_prices_def smap_ok_keys[OF h1]) (simp add: book_two_sided_def)
  have ap: "ask_prices book_two_sided = [101, 102]"
    by (simp add: ask_prices_def smap_ok_keys[OF h2]) (simp add: book_two_sided_def)
  have l1: "length (bids book_two_sided) < 2 ^ 32"
    by (simp add: book_two_sided_def)
  have l2: "length (offers book_two_sided) < 2 ^ 32"
    by (simp add: book_two_sided_def)
  show ?thesis
    using depth_is_best_first_index[OF h1 h2, of 99]
      depth_is_best_first_index[OF h1 h2, of 102]
      depth_is_best_first_index[OF h1 h2, of 98]
      depth_is_best_first_index[OF h1 h2, of 103] l1 l2
    by (simp add: bp ap)
qed

subsection \<open>The index is not touched by writes to the levels\<close>

lemma ordsById_PutSdOrds [simp]: "ordsById (PutSdOrds s lvls b) = ordsById b"
  by (cases s) simp_all

lemma ordsById_UpdLvl [simp]: "ordsById (UpdLvl s px f b) = ordsById b"
  by (cases s) (simp_all add: UpdLvl_def)

lemma ordsById_GetOrInsLvl: "GetOrInsLvl b s px = Inr b1 \<Longrightarrow> ordsById b1 = ordsById b"
  by (cases s) (auto simp: GetOrInsLvl_def)

lemma RemLvl_Inr: "s = Sd_Ask \<or> s = Sd_Bid \<Longrightarrow> \<exists>b'. RemLvl s px b = Inr b'"
  by (auto simp: RemLvl_def)

lemma Book_ProcSynthTrade_Inr:
  assumes "s = Sd_Ask \<or> s = Sd_Bid"
  shows "\<exists>b' w. Book_ProcSynthTrade b px sz s = Inr (b', w)"
proof -
  from assms obtain lvls where l: "GetSdOrds b s = Inr lvls" by auto
  show ?thesis
  proof (cases "map_of lvls px")
    case None
    with l show ?thesis by (simp add: Book_ProcSynthTrade_def)
  next
    case (Some q)
    obtain q' r i' where sl: "synth_loop q sz (ordsById b) = (q', r, i')"
      by (cases "synth_loop q sz (ordsById b)") auto
    from RemLvl_Inr[OF assms] obtain b2 where
      "RemLvl s px (UpdLvl s px (\<lambda>_. q') (b\<lparr>ordsById := i'\<rparr>)) = Inr b2" by blast
    with l Some sl show ?thesis
      by (auto simp: Book_ProcSynthTrade_def Let_def)
  qed
qed

lemma Market_ProcSynthTrade_Inr:
  assumes "s = Sd_Ask \<or> s = Sd_Bid"
  shows "\<exists>mk' w. Market_ProcSynthTrade mk i p px sz s = Inr (mk', w)"
proof (cases "books mk i")
  case None
  then show ?thesis by (simp add: Market_ProcSynthTrade_def)
next
  case (Some pubs)
  show ?thesis
  proof (cases "map_of pubs p")
    case None
    with Some show ?thesis by (simp add: Market_ProcSynthTrade_def)
  next
    case (Some bk)
    from Book_ProcSynthTrade_Inr[OF assms] obtain b' w where
      "Book_ProcSynthTrade bk px sz s = Inr (b', w)" by blast
    with Some \<open>books mk i = Some pubs\<close> show ?thesis
      by (simp add: Market_ProcSynthTrade_def)
  qed
qed

lemma map_of_pb_put: "map_of (pb_put k v l) = (map_of l)(k \<mapsto> v)"
  by (induction l) (auto simp: fun_eq_iff)

subsection \<open>Levels as functions of side and price\<close>

lemma smap_ok_Cons: "smap_ok ((k, v) # r) \<longleftrightarrow> (\<forall>k' \<in> fst ` set r. k < k') \<and> smap_ok r"
  by (auto simp: smap_ok_def)

lemma smap_ok_distinct: "smap_ok m \<Longrightarrow> distinct (map fst m)"
  unfolding smap_ok_def by (simp add: strict_sorted_iff)

lemma smap_ok_map_of: "smap_ok m \<Longrightarrow> map_of m k = Some v \<longleftrightarrow> (k, v) \<in> set m"
  by (simp add: smap_ok_distinct)

lemma map_of_smap_upd:
  "map_of (smap_upd k f m) = (case map_of m k of None \<Rightarrow> map_of m | Some v \<Rightarrow> (map_of m)(k \<mapsto> f v))"
  by (induction m) (auto simp: fun_eq_iff split: option.splits)

lemma keys_smap_upd: "map fst (smap_upd k f m) = map fst m"
  by (induction m) auto

lemma smap_ok_upd: "smap_ok m \<Longrightarrow> smap_ok (smap_upd k f m)"
  by (simp add: smap_ok_def keys_smap_upd)

lemma keys_smap_at: "set (map fst (smap_at k d m)) = insert k (set (map fst m))"
proof (induction m)
  case Nil
  then show ?case by simp
next
  case (Cons a m)
  obtain k' v where a: "a = (k', v)" by (cases a)
  show ?case using Cons.IH a
    by (cases "k < k'"; cases "k = k'") (simp_all add: insert_commute)
qed

lemma set_keys_smap_at: "fst ` set (smap_at k d m) = insert k (fst ` set m)"
  using keys_smap_at[of k d m] by simp

lemma smap_ok_at: "smap_ok m \<Longrightarrow> smap_ok (smap_at k d m)"
proof (induction m)
  case Nil
  then show ?case by (simp add: smap_ok_def)
next
  case (Cons a m)
  obtain k' v where a: "a = (k', v)" by (cases a)
  from Cons.prems a have r: "smap_ok m" and lt: "\<forall>x \<in> fst ` set m. k' < x"
    by (simp_all add: smap_ok_Cons)
  show ?case
  proof (cases "k < k'")
    case True
    with lt have "\<forall>x \<in> fst ` set m. k < x" by auto
    with True r lt a show ?thesis by (simp add: smap_ok_Cons)
  next
    case False
    show ?thesis
    proof (cases "k = k'")
      case True
      with Cons.prems a show ?thesis by simp
    next
      case ne: False
      with False have "k' < k" by simp
      with lt have "\<forall>x \<in> fst ` set (smap_at k d m). k' < x"
        by (simp add: set_keys_smap_at)
      with False ne a Cons.IH[OF r] show ?thesis by (simp add: smap_ok_Cons)
    qed
  qed
qed

lemma map_of_smap_at:
  "smap_ok m \<Longrightarrow>
   map_of (smap_at k d m) = (case map_of m k of None \<Rightarrow> (map_of m)(k \<mapsto> d) | Some v \<Rightarrow> map_of m)"
proof (induction m)
  case Nil
  then show ?case by simp
next
  case (Cons a m)
  obtain k' v where a: "a = (k', v)" by (cases a)
  from Cons.prems a have r: "smap_ok m" and lt: "\<forall>x \<in> fst ` set m. k' < x"
    by (simp_all add: smap_ok_Cons)
  show ?case
  proof (cases "k < k'")
    case True
    with lt have "k \<notin> fst ` set m" by auto
    then have "map_of m k = None" by (simp add: map_of_eq_None_iff)
    with True a show ?thesis by (auto simp: fun_eq_iff)
  next
    case False
    show ?thesis
    proof (cases "k = k'")
      case True
      with a show ?thesis by simp
    next
      case ne: False
      with False a Cons.IH[OF r] show ?thesis
        by (auto simp: fun_eq_iff split: option.splits)
    qed
  qed
qed

lemma keys_smap_erase: "set (map fst (smap_erase k m)) \<subseteq> set (map fst m)"
proof (induction m)
  case Nil
  then show ?case by simp
next
  case (Cons a m)
  obtain k' v where a: "a = (k', v)" by (cases a)
  show ?case using Cons.IH a
    by (cases "k = k'") (simp_all add: subset_insertI2)
qed

lemma set_keys_smap_erase: "fst ` set (smap_erase k m) \<subseteq> fst ` set m"
  using keys_smap_erase[of k m] by simp

lemma smap_ok_erase: "smap_ok m \<Longrightarrow> smap_ok (smap_erase k m)"
proof (induction m)
  case Nil
  then show ?case by simp
next
  case (Cons a m)
  obtain k' v where a: "a = (k', v)" by (cases a)
  from Cons.prems a have r: "smap_ok m" and lt: "\<forall>x \<in> fst ` set m. k' < x"
    by (simp_all add: smap_ok_Cons)
  from lt set_keys_smap_erase[of k m] have "\<forall>x \<in> fst ` set (smap_erase k m). k' < x"
    by blast
  with a r Cons.IH[OF r] show ?case by (simp add: smap_ok_Cons)
qed

lemma map_of_smap_erase: "smap_ok m \<Longrightarrow> map_of (smap_erase k m) = (map_of m)(k := None)"
proof (induction m)
  case Nil
  then show ?case by simp
next
  case (Cons a m)
  obtain k' v where a: "a = (k', v)" by (cases a)
  from Cons.prems a have r: "smap_ok m" and lt: "\<forall>x \<in> fst ` set m. k' < x"
    by (simp_all add: smap_ok_Cons)
  show ?case
  proof (cases "k = k'")
    case True
    with lt have "k \<notin> fst ` set m" by auto
    then have "map_of m k = None" by (simp add: map_of_eq_None_iff)
    with True a show ?thesis by (auto simp: fun_eq_iff)
  next
    case False
    with a Cons.IH[OF r] show ?thesis by (auto simp: fun_eq_iff)
  qed
qed

lemma lv_simps:
  "lv b Sd_Ask px = map_of (offers b) px"
  "lv b Sd_Bid px = map_of (bids b) px"
  "lv b Sd_None px = None"
  "lv b (Sd_Other c) px = None"
  by (simp_all add: lv_def)

lemma lv_Some_side: "lv b s px = Some q \<Longrightarrow> s = Sd_Ask \<or> s = Sd_Bid"
  by (cases s) (simp_all add: lv_simps)

lemma GetLvl_lv: "GetLvl b s px = Inr q \<longleftrightarrow> lv b s px = Some q"
  by (cases s) (auto simp: GetLvl_def lv_def split: option.splits)

lemma lv_UpdLvl:
  "lv (UpdLvl s px f b) s' px' =
     (if s' = s \<and> px' = px then map_option f (lv b s px) else lv b s' px')"
  by (cases s; cases s')
    (auto simp: UpdLvl_def lv_simps map_of_smap_upd split: option.splits)

lemma sides_ok_UpdLvl: "sides_ok b \<Longrightarrow> sides_ok (UpdLvl s px f b)"
  by (cases s) (auto simp: UpdLvl_def sides_ok_def smap_ok_upd)

lemma lv_GetOrInsLvl:
  "sides_ok b \<Longrightarrow> GetOrInsLvl b s px = Inr b1 \<Longrightarrow>
   lv b1 s' px' =
     (if s' = s \<and> px' = px then Some (case lv b s px of None \<Rightarrow> [] | Some q \<Rightarrow> q)
      else lv b s' px')"
  by (cases s; cases s')
    (auto simp: GetOrInsLvl_def lv_simps sides_ok_def map_of_smap_at split: option.splits)

lemma sides_ok_GetOrInsLvl: "sides_ok b \<Longrightarrow> GetOrInsLvl b s px = Inr b1 \<Longrightarrow> sides_ok b1"
  by (cases s) (auto simp: GetOrInsLvl_def sides_ok_def smap_ok_at)

lemma lv_RemLvl:
  "sides_ok b \<Longrightarrow> RemLvl s px b = Inr b1 \<Longrightarrow>
   lv b1 s' px' = (if s' = s \<and> px' = px then None else lv b s' px')"
  by (cases s; cases s')
    (auto simp: RemLvl_def lv_simps sides_ok_def map_of_smap_erase)

lemma sides_ok_RemLvl: "sides_ok b \<Longrightarrow> RemLvl s px b = Inr b1 \<Longrightarrow> sides_ok b1"
  by (cases s) (auto simp: RemLvl_def sides_ok_def smap_ok_erase)

lemma ordsById_RemLvl: "RemLvl s px b = Inr b1 \<Longrightarrow> ordsById b1 = ordsById b"
  by (cases s) (auto simp: RemLvl_def)

lemma lv_ordsById_update [simp]: "lv (b\<lparr>ordsById := i\<rparr>) s px = lv b s px"
  by (cases s) (simp_all add: lv_simps)

lemma sides_ok_ordsById_update [simp]: "sides_ok (b\<lparr>ordsById := i\<rparr>) = sides_ok b"
  by (simp add: sides_ok_def)

lemma RemLvl_Inr_iff: "(\<exists>b1. RemLvl s px b = Inr b1) \<longleftrightarrow> s = Sd_Ask \<or> s = Sd_Bid"
  by (cases s) (auto simp: RemLvl_def)

lemma GetOrInsLvl_Inr_iff: "(\<exists>b1. GetOrInsLvl b s px = Inr b1) \<longleftrightarrow> s = Sd_Ask \<or> s = Sd_Bid"
  by (cases s) (auto simp: GetOrInsLvl_def)

text \<open>Positions in a queue.\<close>

lemma GetLvlOrd_None: "GetLvlOrd q ordId = None \<longleftrightarrow> ordId \<notin> orderId ` set q"
  by (induction q) auto

lemma GetLvlOrd_Some:
  "GetLvlOrd q ordId = Some i \<Longrightarrow>
   \<exists>pre e post. q = pre @ e # post \<and> i = length pre \<and> orderId e = ordId
      \<and> ordId \<notin> orderId ` set pre"
proof (induction q arbitrary: i)
  case Nil
  then show ?case by simp
next
  case (Cons a q)
  show ?case
  proof (cases "orderId a = ordId")
    case True
    with Cons.prems have "i = 0" by simp
    with True show ?thesis by (intro exI[of _ "[]"] exI[of _ a] exI[of _ q]) simp
  next
    case False
    with Cons.prems obtain j where j: "GetLvlOrd q ordId = Some j" "i = Suc j" by auto
    from Cons.IH[OF j(1)] obtain pre e post where
      "q = pre @ e # post" "j = length pre" "orderId e = ordId" "ordId \<notin> orderId ` set pre"
      by blast
    with False j(2) show ?thesis
      by (intro exI[of _ "a # pre"] exI[of _ e] exI[of _ post]) simp
  qed
qed

lemma erase_at_split [simp]: "erase_at (length pre) (pre @ e # post) = pre @ post"
  by (simp add: erase_at_def)

subsection \<open>The operations of the book, case by case\<close>

lemma lv_Book_init [simp]: "lv Book_init s px = None"
  by (cases s) (simp_all add: lv_simps Book_init_def)

lemma book_inv_init: "book_inv Book_init"
  by (simp add: book_inv_def index_inv_def sides_ok_def smap_ok_def) (simp add: Book_init_def)

lemma Book_Add_char:
  assumes "sides_ok b" and "Book_Add b m = Inr (b', w)"
  shows "(side m = Sd_Ask \<or> side m = Sd_Bid) \<and> ordsById b (orderId m) = None \<and> w = []
       \<and> sides_ok b'
       \<and> ordsById b' = (ordsById b)(orderId m \<mapsto> \<lparr>ps_price = price m, ps_side = side m\<rparr>)
       \<and> (\<forall>s px. lv b' s px =
            (if s = side m \<and> px = price m
             then Some ((case lv b s px of None \<Rightarrow> [] | Some q \<Rightarrow> q) @ [m])
             else lv b s px))"
proof -
  from assms(2) obtain b1 where b1: "GetOrInsLvl b (side m) (price m) = Inr b1"
    by (auto simp: Book_Add_def split: sum.splits)
  then have sd: "side m = Sd_Ask \<or> side m = Sd_Bid"
    using GetOrInsLvl_Inr_iff by blast
  note i1 = ordsById_GetOrInsLvl[OF b1]
  from assms(2) b1 i1 have none: "ordsById b (orderId m) = None"
    by (auto simp: Book_Add_def Let_def split: option.splits)
  from assms(2) b1 i1 none have b': "b' = (UpdLvl (side m) (price m) (\<lambda>lvl. lvl @ [m]) b1)
      \<lparr>ordsById := (ordsById b)(orderId m \<mapsto> \<lparr>ps_price = price m, ps_side = side m\<rparr>)\<rparr>"
    and w: "w = []"
    by (auto simp: Book_Add_def Let_def)
  have ok: "sides_ok b'"
    unfolding b' using sides_ok_UpdLvl[OF sides_ok_GetOrInsLvl[OF assms(1) b1]] by simp
  have l: "lv b' s px =
            (if s = side m \<and> px = price m
             then Some ((case lv b s px of None \<Rightarrow> [] | Some q \<Rightarrow> q) @ [m])
             else lv b s px)" for s px
    unfolding b' by (simp add: lv_UpdLvl lv_GetOrInsLvl[OF assms(1) b1])
  from sd none w ok l show ?thesis unfolding b' by simp
qed

lemma Book_Cancel_cases:
  assumes ok: "sides_ok b" and c: "Book_Cancel rd b m = Inr (b', w)"
  obtains
    (unknown) "ordsById b (orderId m) = None" "b' = b" "w = [Warn_cancel_unk_ID (orderId m)]"
  | (not_in_list) ps q where "ordsById b (orderId m) = Some ps"
      "lv b (ps_side ps) (ps_price ps) = Some q" "orderId m \<notin> orderId ` set q" "b' = b"
      "w = [IntErr_not_in_list (orderId m)]"
  | (removed) ps pre e post where "ordsById b (orderId m) = Some ps"
      "lv b (ps_side ps) (ps_price ps) = Some (pre @ e # post)"
      "orderId e = orderId m" "orderId m \<notin> orderId ` set pre" "osize e \<le> osize m"
      "sides_ok b'" "ordsById b' = (ordsById b)(orderId m := None)"
      "\<And>s px. lv b' s px =
         (if pre @ post = [] \<and> s = ps_side rd \<and> px = ps_price rd then None
          else if s = ps_side ps \<and> px = ps_price ps then Some (pre @ post) else lv b s px)"
      "w = (if osize e < osize m then [Warn_partial_cancel (orderId m)] else [])"
  | (reduced) ps pre e post where "ordsById b (orderId m) = Some ps"
      "lv b (ps_side ps) (ps_price ps) = Some (pre @ e # post)"
      "orderId e = orderId m" "orderId m \<notin> orderId ` set pre" "osize m < osize e"
      "sides_ok b'" "ordsById b' = ordsById b"
      "\<And>s px. lv b' s px =
         (if s = ps_side ps \<and> px = ps_price ps
          then Some (pre @ e\<lparr>osize := osize e - osize m\<rparr> # post) else lv b s px)"
      "w = []"
proof (cases "ordsById b (orderId m)")
  case None
  with c have "b' = b" "w = [Warn_cancel_unk_ID (orderId m)]"
    by (simp_all add: Book_Cancel_def)
  with None show ?thesis by (rule unknown)
next
  case (Some ps)
  from c Some obtain q where g: "GetLvl b (ps_side ps) (ps_price ps) = Inr q"
    by (auto simp: Book_Cancel_def split: sum.splits)
  then have q: "lv b (ps_side ps) (ps_price ps) = Some q" by (simp add: GetLvl_lv)
  then have sd: "ps_side ps = Sd_Ask \<or> ps_side ps = Sd_Bid" by (rule lv_Some_side)
  show ?thesis
  proof (cases "GetLvlOrd q (orderId m)")
    case None
    with c Some g have "b' = b" "w = [IntErr_not_in_list (orderId m)]"
      by (simp_all add: Book_Cancel_def)
    moreover from None have "orderId m \<notin> orderId ` set q" by (simp add: GetLvlOrd_None)
    ultimately show ?thesis using Some q by (intro not_in_list)
  next
    case (Some i)
    from GetLvlOrd_Some[OF Some] obtain pre e post where
      sp: "q = pre @ e # post" "i = length pre" "orderId e = orderId m"
          "orderId m \<notin> orderId ` set pre" by blast
    have nth: "q ! i = e" and upd: "\<And>x. q[i := x] = pre @ x # post"
      and er: "erase_at i q = pre @ post"
      using sp(1,2) by simp_all
    show ?thesis
    proof (cases "osize e \<le> osize m")
      case True
      then have z: "(if osize e < osize m then 0 else osize e - osize m) = 0"
        by auto
      define b2 where "b2 = UpdLvl (ps_side ps) (ps_price ps) (\<lambda>_. pre @ post)
          (b\<lparr>ordsById := (ordsById b)(orderId m := None)\<rparr>)"
      have ok2: "sides_ok b2" unfolding b2_def using ok by (simp add: sides_ok_UpdLvl)
      have l2: "lv b2 s px = (if s = ps_side ps \<and> px = ps_price ps then Some (pre @ post)
          else lv b s px)" for s px
        unfolding b2_def using q by (simp add: lv_UpdLvl sp(1))
      have i2: "ordsById b2 = (ordsById b)(orderId m := None)"
        unfolding b2_def by simp
      have w: "w = (if osize e < osize m then [Warn_partial_cancel (orderId m)] else [])"
        using c \<open>ordsById b (orderId m) = Some ps\<close> g Some nth er z
        by (auto simp: Book_Cancel_def Let_def split: if_splits sum.splits)
      show ?thesis
      proof (cases "pre @ post = []")
        case e: True
        have b3: "RemLvl (ps_side rd) (ps_price rd) b2 = Inr b'"
          using c \<open>ordsById b (orderId m) = Some ps\<close> g Some nth er z e
          unfolding b2_def
          by (auto simp: Book_Cancel_def Let_def split: if_splits sum.splits)
        with sides_ok_RemLvl[OF ok2 b3] lv_RemLvl[OF ok2 b3] ordsById_RemLvl[OF b3] l2 i2 e
        have "sides_ok b'" "ordsById b' = (ordsById b)(orderId m := None)"
          "\<And>s px. lv b' s px =
            (if pre @ post = [] \<and> s = ps_side rd \<and> px = ps_price rd then None
             else if s = ps_side ps \<and> px = ps_price ps then Some (pre @ post)
             else lv b s px)"
          by auto
        with \<open>ordsById b (orderId m) = Some ps\<close> q sp True w show ?thesis
          by (intro removed[of ps pre e post]) auto
      next
        case ne: False
        have "b' = b2"
          using c \<open>ordsById b (orderId m) = Some ps\<close> g Some nth er z ne
          unfolding b2_def
          by (auto simp: Book_Cancel_def Let_def split: if_splits)
        with ok2 l2 i2 ne
        have "sides_ok b'" "ordsById b' = (ordsById b)(orderId m := None)"
          "\<And>s px. lv b' s px =
            (if pre @ post = [] \<and> s = ps_side rd \<and> px = ps_price rd then None
             else if s = ps_side ps \<and> px = ps_price ps then Some (pre @ post)
             else lv b s px)"
          by auto
        with \<open>ordsById b (orderId m) = Some ps\<close> q sp True w show ?thesis
          by (intro removed[of ps pre e post]) auto
      qed
    next
      case False
      then have lt: "osize m < osize e" by simp
      then have nz: "osize e - osize m \<noteq> 0" by auto
      from lt have ncap: "\<not> osize e < osize m" by simp
      have "b' = UpdLvl (ps_side ps) (ps_price ps)
          (\<lambda>_. pre @ e\<lparr>osize := osize e - osize m\<rparr> # post) b" and w: "w = []"
        using c \<open>ordsById b (orderId m) = Some ps\<close> g Some nth upd nz ncap
        by (auto simp: Book_Cancel_def Let_def)
      then have "sides_ok b'" "ordsById b' = ordsById b"
        "\<And>s px. lv b' s px =
         (if s = ps_side ps \<and> px = ps_price ps
          then Some (pre @ e\<lparr>osize := osize e - osize m\<rparr> # post) else lv b s px)"
        using ok q by (simp_all add: sides_ok_UpdLvl lv_UpdLvl)
      with \<open>ordsById b (orderId m) = Some ps\<close> q sp lt w show ?thesis
        by (intro reduced[of ps pre e post]) auto
    qed
  qed
qed

lemma Book_Modify_cases:
  assumes ok: "sides_ok b" and c: "Book_Modify b m = Inr (b', w)"
  obtains
    (as_add) "ordsById b (orderId m) = None" "Book_Add b m = Inr (b', w)"
  | (not_in_list) ps q where "ordsById b (orderId m) = Some ps" "ps_side ps = side m"
      "lv b (side m) (ps_price ps) = Some q" "orderId m \<notin> orderId ` set q" "b' = b"
      "w = [IntErr_not_in_prev_list (orderId m)]"
  | (moved) ps pre e post where "ordsById b (orderId m) = Some ps" "ps_side ps = side m"
      "lv b (side m) (ps_price ps) = Some (pre @ e # post)"
      "orderId e = orderId m" "orderId m \<notin> orderId ` set pre" "ps_price ps \<noteq> price m"
      "sides_ok b'" "ordsById b' = (ordsById b)(orderId m \<mapsto> ps\<lparr>ps_price := price m\<rparr>)"
      "\<And>s px. lv b' s px =
         (if s = side m \<and> px = price m
          then Some ((case lv b s px of None \<Rightarrow> [] | Some q \<Rightarrow> q) @ [m])
          else if s = side m \<and> px = ps_price ps
          then (if pre @ post = [] then None else Some (pre @ post))
          else lv b s px)"
      "w = []"
  | (requeued) ps pre e post where "ordsById b (orderId m) = Some ps" "ps_side ps = side m"
      "lv b (side m) (price m) = Some (pre @ e # post)"
      "orderId e = orderId m" "orderId m \<notin> orderId ` set pre" "ps_price ps = price m"
      "osize e < osize m"
      "sides_ok b'" "ordsById b' = ordsById b"
      "\<And>s px. lv b' s px =
         (if s = side m \<and> px = price m then Some (pre @ post @ [m]) else lv b s px)"
      "w = []"
  | (resized) ps pre e post where "ordsById b (orderId m) = Some ps" "ps_side ps = side m"
      "lv b (side m) (price m) = Some (pre @ e # post)"
      "orderId e = orderId m" "orderId m \<notin> orderId ` set pre" "ps_price ps = price m"
      "osize m \<le> osize e"
      "sides_ok b'" "ordsById b' = ordsById b"
      "\<And>s px. lv b' s px =
         (if s = side m \<and> px = price m then Some (pre @ e\<lparr>osize := osize m\<rparr> # post)
          else lv b s px)"
      "w = []"
proof (cases "ordsById b (orderId m)")
  case None
  with c have "Book_Add b m = Inr (b', w)" by (simp add: Book_Modify_def)
  with None show ?thesis by (rule as_add)
next
  case (Some ps)
  note ix = Some
  from c ix have sd: "ps_side ps = side m"
    by (auto simp: Book_Modify_def split: if_splits)
  from c ix sd obtain q where g: "GetLvl b (side m) (ps_price ps) = Inr q"
    by (auto simp: Book_Modify_def Let_def split: sum.splits)
  then have q: "lv b (side m) (ps_price ps) = Some q" by (simp add: GetLvl_lv)
  then have sv: "side m = Sd_Ask \<or> side m = Sd_Bid" by (rule lv_Some_side)
  show ?thesis
  proof (cases "GetLvlOrd q (orderId m)")
    case None
    with c ix sd g have "b' = b" "w = [IntErr_not_in_prev_list (orderId m)]"
      by (simp_all add: Book_Modify_def)
    moreover from None have "orderId m \<notin> orderId ` set q" by (simp add: GetLvlOrd_None)
    ultimately show ?thesis using ix sd q by (intro not_in_list)
  next
    case (Some i)
    from GetLvlOrd_Some[OF Some] obtain pre e post where
      sp: "q = pre @ e # post" "i = length pre" "orderId e = orderId m"
          "orderId m \<notin> orderId ` set pre" by blast
    have nth: "q ! i = e" and upd: "\<And>x. q[i := x] = pre @ x # post"
      and er: "erase_at i q = pre @ post"
      using sp(1,2) by simp_all
    show ?thesis
    proof (cases "ps_price ps = price m")
      case same: True
      show ?thesis
      proof (cases "osize e < osize m")
        case True
        have "b' = UpdLvl (side m) (price m) (\<lambda>_. pre @ post @ [m]) b" and w: "w = []"
          using c ix sd g Some nth er same True
          by (auto simp: Book_Modify_def Let_def)
        then have "sides_ok b'" "ordsById b' = ordsById b"
          "\<And>s px. lv b' s px =
            (if s = side m \<and> px = price m then Some (pre @ post @ [m]) else lv b s px)"
          using ok q same by (simp_all add: sides_ok_UpdLvl lv_UpdLvl)
        with ix sd q sp same True w show ?thesis
          by (intro requeued[of ps pre e post]) auto
      next
        case False
        have "b' = UpdLvl (side m) (price m) (\<lambda>_. pre @ e\<lparr>osize := osize m\<rparr> # post) b"
          and w: "w = []"
          using c ix sd g Some nth upd same False
          by (auto simp: Book_Modify_def Let_def)
        then have "sides_ok b'" "ordsById b' = ordsById b"
          "\<And>s px. lv b' s px =
            (if s = side m \<and> px = price m then Some (pre @ e\<lparr>osize := osize m\<rparr> # post)
             else lv b s px)"
          using ok q same by (simp_all add: sides_ok_UpdLvl lv_UpdLvl)
        with ix sd q sp same False w show ?thesis
          by (intro resized[of ps pre e post]) auto
      qed
    next
      case diff: False
      define b2 where "b2 = UpdLvl (side m) (ps_price ps) (\<lambda>_. pre @ post)
          (b\<lparr>ordsById := (ordsById b)(orderId m \<mapsto> ps\<lparr>ps_price := price m\<rparr>)\<rparr>)"
      have ok2: "sides_ok b2" unfolding b2_def using ok by (simp add: sides_ok_UpdLvl)
      have l2: "lv b2 s px = (if s = side m \<and> px = ps_price ps then Some (pre @ post)
          else lv b s px)" for s px
        unfolding b2_def using q by (simp add: lv_UpdLvl sp(1))
      have i2: "ordsById b2 = (ordsById b)(orderId m \<mapsto> ps\<lparr>ps_price := price m\<rparr>)"
        unfolding b2_def by simp
      obtain b3 where b3: "(if pre @ post = [] then RemLvl (side m) (ps_price ps) b2 else Inr b2)
          = Inr b3"
        using sv RemLvl_Inr_iff[of "side m" "ps_price ps" b2] by (cases "pre @ post = []") auto
      have ok3: "sides_ok b3" and i3: "ordsById b3 = ordsById b2"
        and l3: "\<And>s px. lv b3 s px = (if s = side m \<and> px = ps_price ps
            then (if pre @ post = [] then None else Some (pre @ post)) else lv b s px)"
        using b3 ok2 l2 sides_ok_RemLvl[OF ok2, of "side m" "ps_price ps" b3]
          lv_RemLvl[OF ok2, of "side m" "ps_price ps" b3]
          ordsById_RemLvl[of "side m" "ps_price ps" b2 b3]
        by (auto split: if_splits)
      obtain b4 where b4: "GetOrInsLvl b3 (side m) (price m) = Inr b4"
        using sv GetOrInsLvl_Inr_iff by blast
      have "b' = UpdLvl (side m) (price m) (\<lambda>newLvl. newLvl @ [m]) b4" and w: "w = []"
        using c ix sd g Some er diff b3 b4 unfolding b2_def
        by (auto simp: Book_Modify_def Let_def split: if_splits)
      then have "sides_ok b'"
        "ordsById b' = (ordsById b)(orderId m \<mapsto> ps\<lparr>ps_price := price m\<rparr>)"
        "\<And>s px. lv b' s px =
         (if s = side m \<and> px = price m
          then Some ((case lv b s px of None \<Rightarrow> [] | Some q \<Rightarrow> q) @ [m])
          else if s = side m \<and> px = ps_price ps
          then (if pre @ post = [] then None else Some (pre @ post))
          else lv b s px)"
        using sides_ok_GetOrInsLvl[OF ok3 b4] lv_GetOrInsLvl[OF ok3 b4]
          ordsById_GetOrInsLvl[OF b4] i3 i2 l3 diff
        by (auto simp: sides_ok_UpdLvl lv_UpdLvl)
      with ix sd q sp diff w show ?thesis
        by (intro moved[of ps pre e post]) auto
    qed
  qed
qed

lemma synth_loop_char:
  "synth_loop q sz I = (q', r, I') \<Longrightarrow>
   \<exists>k. k \<le> length q \<and> I' = I |` (- orderId ` set (take k q))
      \<and> (q' = drop k q
         \<or> (\<exists>e rest d. drop k q = e # rest \<and> 0 < d \<and> d < osize e
              \<and> q' = e\<lparr>osize := osize e - d\<rparr> # rest))"
proof (induction q sz I arbitrary: q' r I' rule: synth_loop.induct)
  case (1 remSz idx)
  then show ?case by (intro exI[of _ 0]) (simp add: restrict_map_def)
next
  case (2 curOrd rest remSz idx)
  show ?case
  proof (cases "remSz > 0")
    case False
    with "2.prems" show ?thesis by (intro exI[of _ 0]) (simp add: restrict_map_def)
  next
    case True
    show ?thesis
    proof (cases "osize curOrd \<le> remSz")
      case le: True
      with True "2.prems" have
        "synth_loop rest (remSz - osize curOrd) (idx(orderId curOrd := None)) = (q', r, I')"
        by simp
      from "2.IH"[OF True le this] obtain k where
        k: "k \<le> length rest"
        "I' = idx(orderId curOrd := None) |` (- orderId ` set (take k rest))"
        "(q' = drop k rest
         \<or> (\<exists>e rest' d. drop k rest = e # rest' \<and> 0 < d \<and> d < osize e
              \<and> q' = e\<lparr>osize := osize e - d\<rparr> # rest'))" by blast
      have "idx(orderId curOrd := None) |` (- orderId ` set (take k rest))
          = idx |` (- orderId ` set (take (Suc k) (curOrd # rest)))"
        by (auto simp: restrict_map_def fun_eq_iff)
      with k show ?thesis by (intro exI[of _ "Suc k"]) simp
    next
      case gt: False
      with True "2.prems" have q': "q' = curOrd\<lparr>osize := osize curOrd - remSz\<rparr> # rest"
        and "I' = idx" by simp_all
      from gt have lt: "remSz < osize curOrd" by simp
      have "\<exists>e rest' d. drop 0 (curOrd # rest) = e # rest' \<and> 0 < d \<and> d < osize e
              \<and> q' = e\<lparr>osize := osize e - d\<rparr> # rest'"
        using q' lt True by (intro exI[of _ curOrd] exI[of _ rest] exI[of _ remSz]) simp
      then show ?thesis using \<open>I' = idx\<close>
        by (intro exI[of _ 0]) (simp add: restrict_map_def)
    qed
  qed
qed

lemma Book_ProcSynthTrade_cases:
  assumes ok: "sides_ok b" and c: "Book_ProcSynthTrade b px sz s = Inr (b', w)"
  obtains
    (no_lvl) "s = Sd_Ask \<or> s = Sd_Bid" "lv b s px = None" "b' = b"
      "w = [Warn_synth_no_lvl s px sz]"
  | (traded) q q' r I' where "lv b s px = Some q"
      "synth_loop q sz (ordsById b) = (q', r, I')"
      "sides_ok b'" "ordsById b' = I'"
      "\<And>s' px'. lv b' s' px' =
         (if s' = s \<and> px' = px then (if q' = [] then None else Some q') else lv b s' px')"
      "w = []"
proof -
  from c obtain lvls where g: "GetSdOrds b s = Inr lvls"
    by (auto simp: Book_ProcSynthTrade_def split: sum.splits)
  then have sv: "s = Sd_Ask \<or> s = Sd_Bid" by (cases s) auto
  have l: "lv b s px = map_of lvls px" using g by (simp add: lv_def)
  show ?thesis
  proof (cases "map_of lvls px")
    case None
    with c g have "b' = b" "w = [Warn_synth_no_lvl s px sz]"
      by (simp_all add: Book_ProcSynthTrade_def)
    with sv l None show ?thesis by (intro no_lvl) simp_all
  next
    case (Some q)
    obtain q' r I' where sl: "synth_loop q sz (ordsById b) = (q', r, I')"
      by (cases "synth_loop q sz (ordsById b)") auto
    define b1 where "b1 = UpdLvl s px (\<lambda>_. q') (b\<lparr>ordsById := I'\<rparr>)"
    have ok1: "sides_ok b1" unfolding b1_def using ok by (simp add: sides_ok_UpdLvl)
    have l1: "lv b1 s' px' = (if s' = s \<and> px' = px then Some q' else lv b s' px')" for s' px'
      unfolding b1_def using l Some by (simp add: lv_UpdLvl)
    have i1: "ordsById b1 = I'" unfolding b1_def by simp
    show ?thesis
    proof (cases "q' = []")
      case True
      from sv obtain b2 where b2: "RemLvl s px b1 = Inr b2"
        using RemLvl_Inr_iff by blast
      have "b' = b2" and w: "w = []"
        using c g Some sl True b2 unfolding b1_def
        by (auto simp: Book_ProcSynthTrade_def Let_def)
      with sides_ok_RemLvl[OF ok1 b2] lv_RemLvl[OF ok1 b2] ordsById_RemLvl[OF b2] l1 i1 True
      have "sides_ok b'" "ordsById b' = I'"
        "\<And>s' px'. lv b' s' px' =
         (if s' = s \<and> px' = px then (if q' = [] then None else Some q') else lv b s' px')"
        by auto
      with l Some sl w show ?thesis by (intro traded[of q q' r I']) auto
    next
      case False
      have "b' = b1" and w: "w = []"
        using c g Some sl False unfolding b1_def
        by (auto simp: Book_ProcSynthTrade_def Let_def)
      with ok1 l1 i1 False
      have "sides_ok b'" "ordsById b' = I'"
        "\<And>s' px'. lv b' s' px' =
         (if s' = s \<and> px' = px then (if q' = [] then None else Some q') else lv b s' px')"
        by auto
      with l Some sl w show ?thesis by (intro traded[of q q' r I']) auto
    qed
  qed
qed


subsection \<open>The index invariant is preserved\<close>

lemma restrict_compl_single: "m |` (- {k}) = m(k := None)"
  by (auto simp: restrict_map_def fun_eq_iff)

lemma index_inv_shrink:
  assumes inv: "index_inv L I" and q: "L s0 px0 = Some q"
    and l': "\<And>s px. L' s px =
           (if s = s0 \<and> px = px0 then (if q' = [] then None else Some q') else L s px)"
    and i': "I' = I |` (- gone)"
    and d': "distinct (map orderId q')"
    and ids: "orderId ` set q' = orderId ` set q - gone"
    and sub: "gone \<subseteq> orderId ` set q"
  shows "index_inv L' I'"
proof -
  from inv q have qi: "\<forall>e \<in> set q. I (orderId e) = Some \<lparr>ps_price = px0, ps_side = s0\<rparr>"
    unfolding index_inv_def by blast
  have A: "q1 \<noteq> [] \<and> distinct (map orderId q1)
      \<and> (\<forall>e \<in> set q1. I' (orderId e) = Some \<lparr>ps_price = px, ps_side = s\<rparr>)"
    if q1: "L' s px = Some q1" for s px q1
  proof (cases "s = s0 \<and> px = px0")
    case True
    with q1 l'[of s px] have ne: "q' \<noteq> []" and qq: "q1 = q'"
      by (auto split: if_splits)
    have "I' (orderId e) = Some \<lparr>ps_price = px, ps_side = s\<rparr>" if "e \<in> set q'" for e
    proof -
      from that ids have "orderId e \<in> orderId ` set q" "orderId e \<notin> gone" by auto
      then obtain e0 where "e0 \<in> set q" "orderId e0 = orderId e" by auto
      with qi have "I (orderId e) = Some \<lparr>ps_price = px0, ps_side = s0\<rparr>" by metis
      with \<open>orderId e \<notin> gone\<close> True show ?thesis by (simp add: i')
    qed
    with ne d' qq show ?thesis by simp
  next
    case False
    with q1 l'[of s px] have q0: "L s px = Some q1" by auto
    from inv q0 have g: "q1 \<noteq> []" "distinct (map orderId q1)"
        and e1: "\<forall>e \<in> set q1. I (orderId e) = Some \<lparr>ps_price = px, ps_side = s\<rparr>"
        unfolding index_inv_def by blast+
    have "orderId e \<notin> gone" if "e \<in> set q1" for e
    proof
      assume "orderId e \<in> gone"
      with sub obtain e0 where "e0 \<in> set q" "orderId e0 = orderId e" by auto
      with qi have "I (orderId e) = Some \<lparr>ps_price = px0, ps_side = s0\<rparr>" by metis
      with e1 that False show False by auto
    qed
    with g e1 show ?thesis by (simp add: i')
  qed
  have B: "\<exists>q1. L' (ps_side ps) (ps_price ps) = Some q1 \<and> ordId \<in> orderId ` set q1"
    if "I' ordId = Some ps" for ordId ps
  proof -
    from that i' have i0: "I ordId = Some ps" and ng: "ordId \<notin> gone"
      by (auto simp: restrict_map_def split: if_splits)
    with inv obtain q1 where q1: "L (ps_side ps) (ps_price ps) = Some q1"
      "ordId \<in> orderId ` set q1" unfolding index_inv_def by blast
    show ?thesis
    proof (cases "ps_side ps = s0 \<and> ps_price ps = px0")
      case True
      with q q1 have "q1 = q" by simp
      with q1(2) ng ids have "ordId \<in> orderId ` set q'" by auto
      moreover then have "q' \<noteq> []" by auto
      ultimately show ?thesis using True by (simp add: l')
    next
      case False
      with q1 show ?thesis by (auto simp: l')
    qed
  qed
  from A B show ?thesis unfolding index_inv_def by blast
qed

lemma index_inv_grow:
  assumes inv: "index_inv L I" and none: "I (orderId m) = None"
    and i': "I' = I(orderId m \<mapsto> \<lparr>ps_price = px0, ps_side = s0\<rparr>)"
    and l': "\<And>s px. L' s px =
            (if s = s0 \<and> px = px0
             then Some ((case L s px of None \<Rightarrow> [] | Some q \<Rightarrow> q) @ [m])
             else L s px)"
  shows "index_inv L' I'"
proof -
  have fresh: "\<forall>e \<in> set q. orderId e \<noteq> orderId m" if "L s px = Some q" for s px q
    using inv that none unfolding index_inv_def by force
  have A: "q \<noteq> [] \<and> distinct (map orderId q)
      \<and> (\<forall>e \<in> set q. I' (orderId e) = Some \<lparr>ps_price = px, ps_side = s\<rparr>)"
    if q: "L' s px = Some q" for s px q
  proof (cases "s = s0 \<and> px = px0")
    case True
    show ?thesis
    proof (cases "L s px")
      case None
      with True q l'[of s px] have "q = [m]" by simp
      with True show ?thesis by (simp add: i')
    next
      case (Some q0)
      with True q l'[of s px] have qq: "q = q0 @ [m]" by simp
      from inv Some have "distinct (map orderId q0)"
        and "\<forall>e \<in> set q0. I (orderId e) = Some \<lparr>ps_price = px, ps_side = s\<rparr>"
        unfolding index_inv_def by blast+
      with fresh[OF Some] True show ?thesis
        unfolding qq i' by auto
    qed
  next
    case False
    with q l'[of s px] have q0: "L s px = Some q" by auto
    from inv q0 have "q \<noteq> []" "distinct (map orderId q)"
        and "\<forall>e \<in> set q. I (orderId e) = Some \<lparr>ps_price = px, ps_side = s\<rparr>"
        unfolding index_inv_def by blast+
    with fresh[OF q0] show ?thesis unfolding i' by auto
  qed
  have B: "\<exists>q. L' (ps_side ps) (ps_price ps) = Some q \<and> ordId \<in> orderId ` set q"
    if "I' ordId = Some ps" for ordId ps
  proof (cases "ordId = orderId m")
    case True
    with that i' have "ps = \<lparr>ps_price = px0, ps_side = s0\<rparr>" by simp
    with True show ?thesis by (simp add: l')
  next
    case False
    with that i' have "I ordId = Some ps" by simp
    with inv obtain q where "L (ps_side ps) (ps_price ps) = Some q"
      "ordId \<in> orderId ` set q" unfolding index_inv_def by blast
    then show ?thesis by (auto simp: l')
  qed
  from A B show ?thesis unfolding index_inv_def by blast
qed

lemma book_inv_Add:
  assumes "book_inv b" and "Book_Add b m = Inr (b', w)"
  shows "book_inv b'"
proof -
  from assms(1) have ok: "sides_ok b" and ii: "index_inv (lv b) (ordsById b)"
    by (simp_all add: book_inv_def)
  note c = Book_Add_char[OF ok assms(2)]
  have "index_inv (lv b') (ordsById b')"
    using c by (intro index_inv_grow[OF ii, of m _ "price m" "side m"]) simp_all
  with c show ?thesis by (simp add: book_inv_def)
qed

text \<open>
  A Cancel keeps the agreement of index and queues when its read through the erased
  iterator yields the record the index held.
\<close>

lemma book_inv_Cancel:
  assumes inv: "book_inv b" and c: "Book_Cancel rd b m = Inr (b', w)"
    and rd: "ordsById b (orderId m) = None \<or> ordsById b (orderId m) = Some rd"
  shows "book_inv b'"
proof -
  from inv have ok: "sides_ok b" and ii: "index_inv (lv b) (ordsById b)"
    by (simp_all add: book_inv_def)
  from ok c show ?thesis
  proof (cases rule: Book_Cancel_cases)
    case unknown
    with inv show ?thesis by simp
  next
    case (not_in_list ps q)
    with inv show ?thesis by simp
  next
    case (removed ps pre e post)
    from rd removed(1) have ps: "rd = ps" by simp
    from ii removed(2) have d: "distinct (map orderId (pre @ e # post))"
      unfolding index_inv_def by blast
    have "index_inv (lv b') (ordsById b')"
    proof (rule index_inv_shrink[OF ii removed(2), of _ "pre @ post" _ "{orderId m}"])
      show "lv b' s px = (if s = ps_side ps \<and> px = ps_price ps
           then if pre @ post = [] then None else Some (pre @ post) else lv b s px)" for s px
        unfolding removed(8) ps by auto
      show "ordsById b' = ordsById b |` (- {orderId m})"
        by (simp add: removed(7) restrict_compl_single)
      show "distinct (map orderId (pre @ post))" using d by simp
      show "orderId ` set (pre @ post) = orderId ` set (pre @ e # post) - {orderId m}"
        using d removed(3) by (auto simp: image_iff)
      show "{orderId m} \<subseteq> orderId ` set (pre @ e # post)"
        using removed(3) by auto
    qed
    with removed(6) show ?thesis by (simp add: book_inv_def)
  next
    case (reduced ps pre e post)
    from ii reduced(2) have d: "distinct (map orderId (pre @ e # post))"
      unfolding index_inv_def by blast
    have "index_inv (lv b') (ordsById b')"
    proof (rule index_inv_shrink[OF ii reduced(2),
          of _ "pre @ e\<lparr>osize := osize e - osize m\<rparr> # post" _ "{}"])
      show "lv b' s px = (if s = ps_side ps \<and> px = ps_price ps
           then if pre @ e\<lparr>osize := osize e - osize m\<rparr> # post = [] then None
                else Some (pre @ e\<lparr>osize := osize e - osize m\<rparr> # post) else lv b s px)" for s px
        by (simp add: reduced(8))
      show "ordsById b' = ordsById b |` (- {})"
        by (simp add: reduced(7) restrict_map_def)
      show "distinct (map orderId (pre @ e\<lparr>osize := osize e - osize m\<rparr> # post))" using d by simp
      show "orderId ` set (pre @ e\<lparr>osize := osize e - osize m\<rparr> # post)
          = orderId ` set (pre @ e # post) - {}"
        by simp
      show "{} \<subseteq> orderId ` set (pre @ e # post)" by simp
    qed
    with reduced(6) show ?thesis by (simp add: book_inv_def)
  qed
qed

lemma book_inv_Modify:
  assumes inv: "book_inv b" and c: "Book_Modify b m = Inr (b', w)"
  shows "book_inv b'"
proof -
  from inv have ok: "sides_ok b" and ii: "index_inv (lv b) (ordsById b)"
    by (simp_all add: book_inv_def)
  from ok c show ?thesis
  proof (cases rule: Book_Modify_cases)
    case as_add
    with inv show ?thesis using book_inv_Add by blast
  next
    case (not_in_list ps q)
    with inv show ?thesis by simp
  next
    case (moved ps pre e post)
    from ii moved(3) have d: "distinct (map orderId (pre @ e # post))"
      unfolding index_inv_def by blast
    define L1 where "L1 = (\<lambda>s px. if s = side m \<and> px = ps_price ps
           then if pre @ post = [] then None else Some (pre @ post) else lv b s px)"
    define I1 where "I1 = (ordsById b)(orderId m := None)"
    have i1: "index_inv L1 I1"
    proof (rule index_inv_shrink[OF ii moved(3), of _ "pre @ post" _ "{orderId m}"])
      show "L1 s px = (if s = side m \<and> px = ps_price ps
           then if pre @ post = [] then None else Some (pre @ post) else lv b s px)" for s px
        by (simp add: L1_def)
      show "I1 = ordsById b |` (- {orderId m})"
        by (simp add: I1_def restrict_compl_single)
      show "distinct (map orderId (pre @ post))" using d by simp
      show "orderId ` set (pre @ post) = orderId ` set (pre @ e # post) - {orderId m}"
        using d moved(4) by (auto simp: image_iff)
      show "{orderId m} \<subseteq> orderId ` set (pre @ e # post)"
        using moved(4) by auto
    qed
    have "index_inv (lv b') (ordsById b')"
    proof (rule index_inv_grow[OF i1, of m _ "price m" "side m"])
      show "I1 (orderId m) = None" by (simp add: I1_def)
      have "ps\<lparr>ps_price := price m\<rparr> = \<lparr>ps_price = price m, ps_side = side m\<rparr>"
        using moved(2) by (cases ps) simp
      then show "ordsById b' = I1(orderId m \<mapsto> \<lparr>ps_price = price m, ps_side = side m\<rparr>)"
        by (simp add: moved(8) I1_def)
      show "lv b' s px = (if s = side m \<and> px = price m
           then Some ((case L1 s px of None \<Rightarrow> [] | Some q \<Rightarrow> q) @ [m]) else L1 s px)" for s px
        using moved(6) by (simp add: moved(9) L1_def)
    qed
    with moved(7) show ?thesis by (simp add: book_inv_def)
  next
    case (requeued ps pre e post)
    from ii requeued(3) have d: "distinct (map orderId (pre @ e # post))"
      unfolding index_inv_def by blast
    have "index_inv (lv b') (ordsById b')"
    proof (rule index_inv_shrink[OF ii requeued(3), of _ "pre @ post @ [m]" _ "{}"])
      show "lv b' s px = (if s = side m \<and> px = price m
           then if pre @ post @ [m] = [] then None else Some (pre @ post @ [m])
           else lv b s px)" for s px
        by (simp add: requeued(10))
      show "ordsById b' = ordsById b |` (- {})"
        by (simp add: requeued(9) restrict_map_def)
      show "distinct (map orderId (pre @ post @ [m]))"
        using d requeued(4) by auto
      show "orderId ` set (pre @ post @ [m]) = orderId ` set (pre @ e # post) - {}"
        using requeued(4) by auto
      show "{} \<subseteq> orderId ` set (pre @ e # post)" by simp
    qed
    with requeued(8) show ?thesis by (simp add: book_inv_def)
  next
    case (resized ps pre e post)
    from ii resized(3) have d: "distinct (map orderId (pre @ e # post))"
      unfolding index_inv_def by blast
    have "index_inv (lv b') (ordsById b')"
    proof (rule index_inv_shrink[OF ii resized(3),
          of _ "pre @ e\<lparr>osize := osize m\<rparr> # post" _ "{}"])
      show "lv b' s px = (if s = side m \<and> px = price m
           then if pre @ e\<lparr>osize := osize m\<rparr> # post = [] then None
                else Some (pre @ e\<lparr>osize := osize m\<rparr> # post) else lv b s px)" for s px
        by (simp add: resized(10))
      show "ordsById b' = ordsById b |` (- {})"
        by (simp add: resized(9) restrict_map_def)
      show "distinct (map orderId (pre @ e\<lparr>osize := osize m\<rparr> # post))" using d by simp
      show "orderId ` set (pre @ e\<lparr>osize := osize m\<rparr> # post)
          = orderId ` set (pre @ e # post) - {}"
        by simp
      show "{} \<subseteq> orderId ` set (pre @ e # post)" by simp
    qed
    with resized(8) show ?thesis by (simp add: book_inv_def)
  qed
qed

lemma book_inv_Clear: "book_inv (Book_Clear b)"
proof -
  have "lv (Book_Clear b) s px = None" for s px
    by (cases s) (simp_all add: lv_simps Book_Clear_def)
  then show ?thesis
    by (simp add: book_inv_def index_inv_def sides_ok_def smap_ok_def)
      (simp add: Book_Clear_def)
qed

lemma book_inv_Apply:
  assumes "book_inv b" and "Book_Apply rd b m = Inr (b', w)" and "read_recorded rd b m"
  shows "book_inv b'"
proof (cases "action m")
  case Act_Add
  with assms show ?thesis using book_inv_Add[of b m b' w] by (simp add: Book_Apply_def)
next
  case Act_Cancel
  with assms show ?thesis using book_inv_Cancel[of b rd m b' w]
    by (simp add: Book_Apply_def read_recorded_def)
next
  case Act_Modify
  with assms show ?thesis using book_inv_Modify[of b m b' w] by (simp add: Book_Apply_def)
next
  case Act_Clear
  with assms show ?thesis using book_inv_Clear[of b] by (auto simp: Book_Apply_def)
next
  case Act_Trade
  with assms show ?thesis by (auto simp: Book_Apply_def)
next
  case Act_Fill
  with assms show ?thesis by (auto simp: Book_Apply_def)
next
  case Act_None
  with assms show ?thesis by (auto simp: Book_Apply_def)
next
  case (Act_Other c)
  with assms show ?thesis by (auto simp: Book_Apply_def)
qed

lemma book_inv_ProcSynthTrade:
  assumes inv: "book_inv b" and c: "Book_ProcSynthTrade b px sz s = Inr (b', w)"
  shows "book_inv b'"
proof -
  from inv have ok: "sides_ok b" and ii: "index_inv (lv b) (ordsById b)"
    by (simp_all add: book_inv_def)
  from ok c show ?thesis
  proof (cases rule: Book_ProcSynthTrade_cases)
    case no_lvl
    with inv show ?thesis by simp
  next
    case (traded q q' r I')
    from ii traded(1) have d: "distinct (map orderId q)"
      unfolding index_inv_def by blast
    from synth_loop_char[OF traded(2)] obtain k where
      k: "k \<le> length q" "I' = ordsById b |` (- orderId ` set (take k q))"
        "q' = drop k q
         \<or> (\<exists>e rest d. drop k q = e # rest \<and> 0 < d \<and> d < osize e
              \<and> q' = e\<lparr>osize := osize e - d\<rparr> # rest)" by blast
    have m: "map orderId q' = drop k (map orderId q)"
    proof -
      from k(3) have "map orderId q' = map orderId (drop k q)"
      proof
        assume "q' = drop k q"
        then show ?thesis by simp
      next
        assume "\<exists>e rest d. drop k q = e # rest \<and> 0 < d \<and> d < osize e
              \<and> q' = e\<lparr>osize := osize e - d\<rparr> # rest"
        then obtain e rest d where "drop k q = e # rest" "q' = e\<lparr>osize := osize e - d\<rparr> # rest"
          by blast
        then show ?thesis by simp
      qed
      also have "\<dots> = drop k (map orderId q)" by (rule drop_map[symmetric])
      finally show ?thesis .
    qed
    have dd: "distinct (take k (map orderId q) @ drop k (map orderId q))"
      using d by simp
    have "index_inv (lv b') (ordsById b')"
    proof (rule index_inv_shrink[OF ii traded(1), of _ q' _ "orderId ` set (take k q)"])
      show "lv b' s' px' = (if s' = s \<and> px' = px
           then if q' = [] then None else Some q' else lv b s' px')" for s' px'
        by (rule traded(5))
      show "ordsById b' = ordsById b |` (- orderId ` set (take k q))"
        by (simp add: traded(4) k(2))
      show "distinct (map orderId q')" using d m by simp
      have "set (drop k (map orderId q)) \<inter> set (take k (map orderId q)) = {}"
        using dd[unfolded distinct_append] by blast
      moreover have "set (map orderId q)
          = set (take k (map orderId q)) \<union> set (drop k (map orderId q))"
        by (metis append_take_drop_id set_append)
      ultimately have "set (map orderId q') = set (map orderId q) - set (take k (map orderId q))"
        unfolding m by blast
      then show "orderId ` set q' = orderId ` set q - orderId ` set (take k q)"
        by (simp add: take_map)
      show "orderId ` set (take k q) \<subseteq> orderId ` set q"
        by (meson image_mono set_take_subset)
    qed
    with traded(3) show ?thesis by (simp add: book_inv_def)
  qed
qed

subsection \<open>Evaluation of the model on concrete input\<close>

lemmas model_defs = process_def write_row_def Market_Apply_def Book_Apply_def Book_Add_def
  GetOrInsLvl_def UpdLvl_def GetAggBidLvls_def GetAggAskLvls_def GetBidLvls_def GetAskLvls_def
  agg_lvl_def CalcPriceLvl_def PriceLvl_init_def IsEmpty_def UNDEFINED_PRICE_def
  GetLevelDepth_def GetBidLevelDepth_def GetAskLevelDepth_def Driver_init_def Market_init_def
  Book_init_def Let_def

lemma run_one_add:
  "\<exists>st. run Driver_init [(rd_none, ev Act_Add 10 Sd_Bid 99500000000 4)] = Inr st
      \<and> books (market st) 42 = Some [(1, book_one_bid)]"
  by (simp add: model_defs ev_def book_one_bid_def)

lemma run_add_trade_fill:
  "\<exists>st. run Driver_init [(rd_none, ev Act_Add 10 Sd_Bid 99500000000 4),
           (rd_none, ev Act_Trade 77 Sd_Ask 99500000000 4),
               (rd_none, ev Act_Fill 77 Sd_Ask 99500000000 4)] = Inr st
      \<and> books (market st) 42 = Some [(1, book_one_bid)]
      \<and> pendingTFs st 77 = Some (ev Act_Fill 77 Sd_Ask 99500000000 4)"
  by (simp add: model_defs ev_def book_one_bid_def)

subsection \<open>Fatal faults\<close>

lemma Book_Add_dup:
  assumes "ordsById b (orderId m) = Some ps"
  shows "\<exists>msg. Book_Add b m = Inl (invalid_argument msg)"
proof (cases "GetOrInsLvl b (side m) (price m)")
  case (Inl e)
  then have "e = invalid_argument Invalid_side"
    by (cases "side m") (auto simp: GetOrInsLvl_def)
  with Inl show ?thesis by (simp add: Book_Add_def)
next
  case (Inr b1)
  from ordsById_GetOrInsLvl[OF Inr] assms Inr show ?thesis
    by (simp add: Book_Add_def)
qed

lemma Book_Modify_side:
  assumes "ordsById b (orderId m) = Some ps" and "ps_side ps \<noteq> side m"
  shows "Book_Modify b m = Inl (logic_error (Changed_side (orderId m)))"
  using assms by (simp add: Book_Modify_def)

lemma run_append:
  "run st (xs @ ys) = (case run st xs of Inl e \<Rightarrow> Inl e | Inr st' \<Rightarrow> run st' ys)"
  by (induction xs arbitrary: st) (auto split: sum.splits)

text \<open>
  C7. Let the event stream \<open>pre\<close> have been processed without an exception, and let the next
  event \<open>m\<close> be routed to a book in which its order id is in the index. If \<open>m\<close> is an Add,
  the iteration ends with \<open>std::invalid_argument\<close>; if \<open>m\<close> is a Modify whose side differs
  from the recorded side, it ends with \<open>std::logic_error\<close>. Nothing in the loop catches it:
  the run over the whole stream ends with that exception, whatever follows \<open>m\<close>, and no row
  is written for \<open>m\<close>.
\<close>

theorem fatal_faults_abort:
  assumes "run st0 pre = Inr st"
    and "books (market st) (instrId m) = Some pubs"
    and "map_of pubs (pubId m) = Some bk"
    and "ordsById bk (orderId m) = Some ps"
  shows "(action m = Act_Add \<longrightarrow>
            (\<exists>msg. process rd st m = Inl (invalid_argument msg)
                 \<and> run st0 (pre @ (rd, m) # post) = Inl (invalid_argument msg)))
       \<and> (action m = Act_Modify \<and> ps_side ps \<noteq> side m \<longrightarrow>
            process rd st m = Inl (logic_error (Changed_side (orderId m)))
          \<and> run st0 (pre @ (rd, m) # post) = Inl (logic_error (Changed_side (orderId m))))"
proof (intro conjI impI)
  assume a: "action m = Act_Add"
  from Book_Add_dup[OF assms(4)] obtain msg where
    "Book_Add bk m = Inl (invalid_argument msg)" by blast
  then have "process rd st m = Inl (invalid_argument msg)"
    using a assms(2,3) by (simp add: process_def Market_Apply_def Book_Apply_def)
  then show "\<exists>msg. process rd st m = Inl (invalid_argument msg)
                 \<and> run st0 (pre @ (rd, m) # post) = Inl (invalid_argument msg)"
    using assms(1) by (auto simp: run_append)
next
  assume a: "action m = Act_Modify \<and> ps_side ps \<noteq> side m"
  then have "Book_Modify bk m = Inl (logic_error (Changed_side (orderId m)))"
    using Book_Modify_side[OF assms(4)] by simp
  then show p: "process rd st m = Inl (logic_error (Changed_side (orderId m)))"
    using a assms(2,3) by (simp add: process_def Market_Apply_def Book_Apply_def)
  then show "run st0 (pre @ (rd, m) # post) = Inl (logic_error (Changed_side (orderId m)))"
    using assms(1) by (simp add: run_append)
qed

theorem fatal_faults_abort_witness:
  "(\<exists>msg. run Driver_init [(rd_none, ev Act_Add 10 Sd_Bid 99500000000 4),
      (rd_none, ev Act_Add 10 Sd_Ask 101 1),
            (rd_none, ev Act_Clear 0 Sd_None 0 0)] = Inl (invalid_argument msg))
   \<and> run Driver_init [(rd_none, ev Act_Add 10 Sd_Bid 99500000000 4),
       (rd_none, ev Act_Modify 10 Sd_Ask 101 1),
            (rd_none, ev Act_Clear 0 Sd_None 0 0)] = Inl (logic_error (Changed_side 10))"
proof -
  from run_one_add obtain st where
    r: "run Driver_init [(rd_none, ev Act_Add 10 Sd_Bid 99500000000 4)] = Inr st"
    and b: "books (market st) 42 = Some [(1, book_one_bid)]" by blast
  have b1: "books (market st) (instrId (ev Act_Add 10 Sd_Ask 101 1)) = Some [(1, book_one_bid)]"
    using b by (simp add: ev_def)
  have p1: "map_of [(1, book_one_bid)] (pubId (ev Act_Add 10 Sd_Ask 101 1)) = Some book_one_bid"
    by (simp add: ev_def)
  have i1: "ordsById book_one_bid (orderId (ev Act_Add 10 Sd_Ask 101 1))
              = Some \<lparr>ps_price = 99500000000, ps_side = Sd_Bid\<rparr>"
    by (simp add: ev_def book_one_bid_def)
  have b2: "books (market st) (instrId (ev Act_Modify 10 Sd_Ask 101 1)) = Some [(1, book_one_bid)]"
    using b by (simp add: ev_def)
  have p2: "map_of [(1, book_one_bid)] (pubId (ev Act_Modify 10 Sd_Ask 101 1)) = Some book_one_bid"
    by (simp add: ev_def)
  have i2: "ordsById book_one_bid (orderId (ev Act_Modify 10 Sd_Ask 101 1))
              = Some \<lparr>ps_price = 99500000000, ps_side = Sd_Bid\<rparr>"
    by (simp add: ev_def book_one_bid_def)
  have a1: "action (ev Act_Add 10 Sd_Ask 101 1) = Act_Add" by (simp add: ev_def)
  have a2: "action (ev Act_Modify 10 Sd_Ask 101 1) = Act_Modify
      \<and> ps_side \<lparr>ps_price = 99500000000, ps_side = Sd_Bid\<rparr> \<noteq> side (ev Act_Modify 10 Sd_Ask 101 1)"
    by (simp add: ev_def)
  have o2: "orderId (ev Act_Modify 10 Sd_Ask 101 1) = 10" by (simp add: ev_def)
  from fatal_faults_abort[OF r b1 p1 i1, of rd_none "[(rd_none, ev Act_Clear 0 Sd_None 0 0)]"] a1
  have A: "\<exists>msg. run Driver_init ([(rd_none, ev Act_Add 10 Sd_Bid 99500000000 4)] @
      (rd_none, ev Act_Add 10 Sd_Ask 101 1) # [
          (rd_none, ev Act_Clear 0 Sd_None 0 0)]) = Inl (invalid_argument msg)"
    by blast
  from fatal_faults_abort[OF r b2 p2 i2, of rd_none "[(rd_none, ev Act_Clear 0 Sd_None 0 0)]"] a2
  have B: "run Driver_init ([(rd_none, ev Act_Add 10 Sd_Bid 99500000000 4)] @
      (rd_none, ev Act_Modify 10 Sd_Ask 101 1) # [(rd_none, ev Act_Clear 0 Sd_None 0 0)])
      = Inl (logic_error (Changed_side 10))"
    unfolding o2 by blast
  from A B show ?thesis by (simp only: append.simps) 
qed

subsection \<open>The sequencer\<close>

text \<open>
  C8. For an event with action Trade and side None, in any state of the driver: the iteration
  writes one row for the event with depth 0, and the market, the pending Trade/Fill map and
  the error stream are what they were.
\<close>

theorem trade_side_none_frame:
  assumes "action m = Act_Trade" and "side m = Sd_None"
  shows "\<exists>st' r. process rd st m = Inr st' \<and> market st' = market st
           \<and> pendingTFs st' = pendingTFs st \<and> cerr st' = cerr st
           \<and> mbpOs st' = mbpOs st @ [r] \<and> mi r = m \<and> depth_val r = 0
           \<and> rIdx r = mbpRowIdx st"
  using assms by (simp add: process_def write_row_def)

theorem trade_side_none_frame_witness:
  "\<exists>st st' r. run Driver_init [(rd_none, ev Act_Add 10 Sd_Bid 99500000000 4),
           (rd_none, ev Act_Trade 77 Sd_Ask 99500000000 4),
               (rd_none, ev Act_Fill 77 Sd_Ask 99500000000 4)] = Inr st
     \<and> process rd_none st (ev Act_Trade 77 Sd_None 100 1) = Inr st' \<and> market st' = market st
     \<and> pendingTFs st' = pendingTFs st \<and> cerr st' = cerr st
     \<and> mbpOs st' = mbpOs st @ [r] \<and> mi r = ev Act_Trade 77 Sd_None 100 1 \<and> depth_val r = 0
     \<and> rIdx r = mbpRowIdx st"
proof -
  from run_add_trade_fill obtain st where
    r: "run Driver_init [(rd_none, ev Act_Add 10 Sd_Bid 99500000000 4),
           (rd_none, ev Act_Trade 77 Sd_Ask 99500000000 4),
               (rd_none, ev Act_Fill 77 Sd_Ask 99500000000 4)] = Inr st"
    by blast
  have a: "action (ev Act_Trade 77 Sd_None 100 1) = Act_Trade" by (simp add: ev_def)
  have s: "side (ev Act_Trade 77 Sd_None 100 1) = Sd_None" by (simp add: ev_def)
  from trade_side_none_frame[OF a s, of rd_none st] r show ?thesis by blast
qed

text \<open>
  C2. For a Cancel whose order id has a pending Trade/Fill event \<open>prior\<close> with side Bid or
  Ask: \<open>Market::ProcSynthTrade\<close> is applied once, for the Cancel's instrument and publisher,
  with the price and size of \<open>prior\<close> on the side opposite to that of \<open>prior\<close>, and it
  returns normally; the pending entry is removed; the market of the next state is the one it
  returned; the depth of the row is \<open>GetLevelDepth\<close> of that market at the pending price on
  the affected side. When the book of that instrument and publisher exists, it is replaced by
  the result of \<open>Book::ProcSynthTrade\<close> and no other book changes.
\<close>

theorem cancel_of_pending_is_one_synthetic_trade:
  assumes "action m = Act_Cancel"
    and "pendingTFs st (orderId m) = Some prior"
    and "side prior = Sd_Bid \<or> side prior = Sd_Ask"
  shows "\<exists>st' mk' w r.
           Market_ProcSynthTrade (market st) (instrId m) (pubId m) (price prior) (osize prior)
             (opposite (side prior)) = Inr (mk', w)
         \<and> process rd st m = Inr st'
         \<and> pendingTFs st' = (pendingTFs st)(orderId m := None)
         \<and> market st' = mk'
         \<and> cerr st' = cerr st @ w
         \<and> mbpOs st' = mbpOs st @ [r] \<and> mi r = m
         \<and> depth_val r =
             GetLevelDepth mk' (instrId m) (pubId m) (price prior) (opposite (side prior))
         \<and> (\<forall>pubs bk. books (market st) (instrId m) = Some pubs \<and> map_of pubs (pubId m) = Some bk
              \<longrightarrow> (\<exists>bk'. Book_ProcSynthTrade bk (price prior) (osize prior)
                              (opposite (side prior)) = Inr (bk', w)
                    \<and> books mk' = (books (market st))(instrId m \<mapsto> pb_put (pubId m) bk' pubs)
                    \<and> map_of (pb_put (pubId m) bk' pubs) = (map_of pubs)(pubId m \<mapsto> bk')))"
proof -
  have opp: "opposite (side prior) = Sd_Ask \<or> opposite (side prior) = Sd_Bid"
    by (simp add: opposite_def)
  from Market_ProcSynthTrade_Inr[OF opp] obtain mk' w where
    M: "Market_ProcSynthTrade (market st) (instrId m) (pubId m) (price prior) (osize prior)
             (opposite (side prior)) = Inr (mk', w)" by blast
  have P: "process rd st m = Inr (write_row (st\<lparr>pendingTFs := (pendingTFs st)(orderId m := None),
              market := mk', cerr := cerr st @ w\<rparr>) m
              (GetLevelDepth mk' (instrId m) (pubId m) (price prior) (opposite (side prior))))"
    using assms M by (auto simp: process_def opposite_def Let_def)
  have B: "\<exists>bk'. Book_ProcSynthTrade bk (price prior) (osize prior)
                              (opposite (side prior)) = Inr (bk', w)
                    \<and> books mk' = (books (market st))(instrId m \<mapsto> pb_put (pubId m) bk' pubs)
                    \<and> map_of (pb_put (pubId m) bk' pubs) = (map_of pubs)(pubId m \<mapsto> bk')"
    if "books (market st) (instrId m) = Some pubs \<and> map_of pubs (pubId m) = Some bk" for pubs bk
    using M that
    by (auto simp: Market_ProcSynthTrade_def map_of_pb_put split: sum.splits)
  show ?thesis
    using M P B by (simp add: write_row_def)
qed

theorem cancel_of_pending_is_one_synthetic_trade_witness:
  "\<exists>st st' mk' r. run Driver_init [(rd_none, ev Act_Add 10 Sd_Bid 99500000000 4),
           (rd_none, ev Act_Trade 77 Sd_Ask 99500000000 4),
               (rd_none, ev Act_Fill 77 Sd_Ask 99500000000 4)] = Inr st
     \<and> Market_ProcSynthTrade (market st) 42 1 99500000000 4 Sd_Bid = Inr (mk', [])
     \<and> process rd_none st (ev Act_Cancel 77 Sd_Ask 99500000000 4) = Inr st'
     \<and> pendingTFs st' 77 = None
     \<and> market st' = mk'
     \<and> books mk' 42 = Some [(1, Book_init)]
     \<and> mbpOs st' = mbpOs st @ [r] \<and> depth_val r = GetLevelDepth mk' 42 1 99500000000 Sd_Bid
     \<and> depth_val r = 0"
proof -
  from run_add_trade_fill obtain st where
    r: "run Driver_init [(rd_none, ev Act_Add 10 Sd_Bid 99500000000 4),
           (rd_none, ev Act_Trade 77 Sd_Ask 99500000000 4),
               (rd_none, ev Act_Fill 77 Sd_Ask 99500000000 4)] = Inr st"
    and b: "books (market st) 42 = Some [(1, book_one_bid)]"
    and p: "pendingTFs st 77 = Some (ev Act_Fill 77 Sd_Ask 99500000000 4)" by blast
  have a: "action (ev Act_Cancel 77 Sd_Ask 99500000000 4) = Act_Cancel" by (simp add: ev_def)
  have p': "pendingTFs st (orderId (ev Act_Cancel 77 Sd_Ask 99500000000 4))
              = Some (ev Act_Fill 77 Sd_Ask 99500000000 4)"
    using p by (simp add: ev_def)
  have s: "side (ev Act_Fill 77 Sd_Ask 99500000000 4) = Sd_Bid
         \<or> side (ev Act_Fill 77 Sd_Ask 99500000000 4) = Sd_Ask" by (simp add: ev_def)
  have bk: "Book_ProcSynthTrade book_one_bid 99500000000 4 Sd_Bid = Inr (Book_init, [])"
    by (simp add: Book_ProcSynthTrade_def book_one_bid_def ev_def UpdLvl_def RemLvl_def
        Book_init_def)
  from cancel_of_pending_is_one_synthetic_trade[OF a p' s, of rd_none]
  obtain st' mk' w r' where
    c: "Market_ProcSynthTrade (market st) (instrId (ev Act_Cancel 77 Sd_Ask 99500000000 4))
          (pubId (ev Act_Cancel 77 Sd_Ask 99500000000 4))
          (price (ev Act_Fill 77 Sd_Ask 99500000000 4)) (osize (ev Act_Fill 77 Sd_Ask 99500000000 4))
          (opposite (side (ev Act_Fill 77 Sd_Ask 99500000000 4))) = Inr (mk', w)"
       "process rd_none st (ev Act_Cancel 77 Sd_Ask 99500000000 4) = Inr st'"
       "pendingTFs st' = (pendingTFs st)(orderId (ev Act_Cancel 77 Sd_Ask 99500000000 4) := None)"
       "market st' = mk'"
       "mbpOs st' = mbpOs st @ [r']"
       "depth_val r' = GetLevelDepth mk' (instrId (ev Act_Cancel 77 Sd_Ask 99500000000 4))
          (pubId (ev Act_Cancel 77 Sd_Ask 99500000000 4))
          (price (ev Act_Fill 77 Sd_Ask 99500000000 4))
          (opposite (side (ev Act_Fill 77 Sd_Ask 99500000000 4)))"
    by blast
  have e: "instrId (ev Act_Cancel 77 Sd_Ask 99500000000 4) = 42"
    "pubId (ev Act_Cancel 77 Sd_Ask 99500000000 4) = 1"
    "orderId (ev Act_Cancel 77 Sd_Ask 99500000000 4) = 77"
    "price (ev Act_Fill 77 Sd_Ask 99500000000 4) = 99500000000"
    "osize (ev Act_Fill 77 Sd_Ask 99500000000 4) = 4"
    "opposite (side (ev Act_Fill 77 Sd_Ask 99500000000 4)) = Sd_Bid"
    by (simp_all add: ev_def opposite_def)
  have mk: "mk' = (market st)\<lparr>books := (books (market st))(42 \<mapsto> [(1, Book_init)])\<rparr> \<and> w = []"
    using c(1) b bk unfolding e by (simp add: Market_ProcSynthTrade_def)
  have d: "GetLevelDepth mk' 42 1 99500000000 Sd_Bid = 0"
    using mk by (simp add: GetLevelDepth_def GetBidLevelDepth_def Book_init_def)
  show ?thesis
    using r c mk d unfolding e by auto
qed

subsection \<open>Books after a sequence of mutations\<close>

lemmas book_defs = Book_Apply_def Book_Add_def Book_Cancel_def Book_Modify_def
  Book_ProcSynthTrade_def Book_Clear_def GetOrInsLvl_def GetLvl_def UpdLvl_def RemLvl_def
  erase_at_def Book_init_def Let_def

lemma run_example: "run_book Book_init ops_example = Inr book_example"
  by (simp add: ops_example_def book_example_def book_defs ev_def fun_upd_twist
      word_le_nat_alt word_less_nat_alt)

lemma reads_recorded_example: "reads_recorded Book_init ops_example"
  by (simp add: ops_example_def read_recorded_def book_defs ev_def fun_upd_twist
      word_le_nat_alt word_less_nat_alt)

text \<open>
  The books reached by mutations in which every read through the erased iterator yielded
  the erased record keep index and queues in agreement.
\<close>

lemma book_inv_run:
  "book_inv b \<Longrightarrow> reads_recorded b ops \<Longrightarrow> run_book b ops = Inr b' \<Longrightarrow> book_inv b'"
proof (induction ops arbitrary: b)
  case Nil
  then show ?case by simp
next
  case (Cons x xs)
  from Cons.prems(3) obtain b1 w where a: "apply_op b x = Inr (b1, w)"
    and r: "run_book b1 xs = Inr b'"
    by (auto split: sum.splits)
  from Cons.prems(2) a have rr: "reads_recorded b1 xs" by simp
  have "book_inv b1"
  proof (cases x)
    case (Event rd m)
    with Cons.prems(2) have "read_recorded rd b m" by simp
    with Event a Cons.prems(1) show ?thesis using book_inv_Apply[of b rd m b1 w] by simp
  next
    case (SynthTrade px sz s)
    with a Cons.prems(1) show ?thesis using book_inv_ProcSynthTrade by simp
  qed
  from Cons.IH[OF this rr r] show ?case .
qed

lemma book_inv_index_agrees:
  assumes "book_inv b"
  shows "index_agrees b"
proof -
  from assms have ok: "smap_ok (bids b)" "smap_ok (offers b)"
    and ii: "index_inv (lv b) (ordsById b)"
    by (simp_all add: book_inv_def sides_ok_def)
  have B: "lv b Sd_Bid px = Some q \<longleftrightarrow> (px, q) \<in> set (bids b)" for px q
    by (simp add: lv_simps smap_ok_map_of[OF ok(1)])
  have A: "lv b Sd_Ask px = Some q \<longleftrightarrow> (px, q) \<in> set (offers b)" for px q
    by (simp add: lv_simps smap_ok_map_of[OF ok(2)])
  have rb: "queues_recorded b Sd_Bid (bids b)"
    unfolding queues_recorded_def using ii B unfolding index_inv_def by blast
  have ra: "queues_recorded b Sd_Ask (offers b)"
    unfolding queues_recorded_def using ii A unfolding index_inv_def by blast
  have "dom (ordsById b) = book_ids b"
  proof (intro set_eqI iffI)
    fix x assume "x \<in> dom (ordsById b)"
    then obtain ps where ps: "ordsById b x = Some ps" by auto
    with ii obtain q where q: "lv b (ps_side ps) (ps_price ps) = Some q" "x \<in> orderId ` set q"
      unfolding index_inv_def by blast
    from lv_Some_side[OF q(1)] q(1) A B
    have "(ps_price ps, q) \<in> set (bids b) \<union> set (offers b)" by auto
    with q(2) show "x \<in> book_ids b" unfolding book_ids_def by blast
  next
    fix x assume "x \<in> book_ids b"
    then obtain px q e where e: "(px, q) \<in> set (bids b) \<union> set (offers b)" "e \<in> set q"
      "x = orderId e" unfolding book_ids_def by blast
    with rb ra show "x \<in> dom (ordsById b)"
      unfolding queues_recorded_def by fastforce
  qed
  with rb ra show ?thesis by (simp add: index_agrees_def)
qed

text \<open>
  In every book reached from the empty book by events applied through \<open>Book::Apply\<close> and
  by synthetic trades, none of which threw, and in which every read through the erased
  iterator yielded the erased record: the ids that are keys of the index are the ids of the
  orders in the queues of the two sides, and every order in a queue is recorded in the index
  under the price of its queue and the side of its queue. Add, Modify, Clear and the
  synthetic trade keep the agreement without a condition; the Cancel that empties a level
  keeps it under that condition on its read only.
\<close>

lemma index_agrees_reads_recorded:
  assumes "run_book Book_init ops = Inr b" and "reads_recorded Book_init ops"
  shows "index_agrees b"
  using book_inv_index_agrees[OF book_inv_run[OF book_inv_init assms(2,1)]] .

lemma index_agrees_example: "index_agrees book_example"
  using index_agrees_reads_recorded[OF run_example reads_recorded_example] .

lemma run_two_bids:
  "run_book Book_init ops_two_bids = Inr
     \<lparr>ordsById = [1 \<mapsto> \<lparr>ps_price = 100, ps_side = Sd_Bid\<rparr>,
                  2 \<mapsto> \<lparr>ps_price = 99, ps_side = Sd_Bid\<rparr>],
      offers = [],
      bids = [(99, [ev Act_Add 2 Sd_Bid 99 3]), (100, [ev Act_Add 1 Sd_Bid 100 5])]\<rparr>"
  by (simp add: ops_two_bids_def book_defs ev_def)

lemma book_lost_level_not_index_agrees: "\<not> index_agrees book_lost_level"
  by (simp add: index_agrees_def book_ids_def book_lost_level_def)


subsection \<open>Add followed by Cancel\<close>

lemma smap_ext:
  "smap_ok m \<Longrightarrow> smap_ok m' \<Longrightarrow> map_of m = map_of m' \<Longrightarrow> m = m'"
proof (induction m arbitrary: m')
  case Nil
  then show ?case by (metis map_of_eq_empty_iff map_of.simps(1))
next
  case (Cons a r)
  obtain k v where a: "a = (k, v)" by (cases a)
  have "m' \<noteq> []"
  proof
    assume "m' = []"
    from Cons.prems(3) have "map_of (a # r) k = map_of m' k" by (rule fun_cong)
    with a \<open>m' = []\<close> show False by simp
  qed
  then obtain k' v' r' where m': "m' = (k', v') # r'" by (cases m') auto
  from Cons.prems(1) a have r: "smap_ok r" and lt: "\<forall>x \<in> fst ` set r. k < x"
    by (simp_all add: smap_ok_Cons)
  from Cons.prems(2) m' have r': "smap_ok r'" and lt': "\<forall>x \<in> fst ` set r'. k' < x"
    by (simp_all add: smap_ok_Cons)
  have eqx: "map_of ((k, v) # r) x = map_of ((k', v') # r') x" for x
    using Cons.prems(3)[unfolded a m'] by (rule fun_cong)
  have "k = k' \<or> k \<in> fst ` set r'"
  proof (cases "k = k'")
    case False
    with eqx[of k] have "map_of r' k = Some v" by simp
    then have "(k, v) \<in> set r'" by (rule map_of_SomeD)
    then show ?thesis by force
  qed simp
  moreover have "k' = k \<or> k' \<in> fst ` set r"
  proof (cases "k' = k")
    case False
    with eqx[of k'] have "map_of r k' = Some v'" by simp
    then have "(k', v') \<in> set r" by (rule map_of_SomeD)
    then show ?thesis by force
  qed simp
  ultimately have kk: "k = k'" using lt lt' by force
  have vv: "v = v'" using eqx[of k] kk by simp
  have n1: "map_of r k = None" using lt by (force simp: map_of_eq_None_iff)
  have n2: "map_of r' k = None" using lt' kk by (force simp: map_of_eq_None_iff)
  have "map_of r x = map_of r' x" for x
  proof (cases "x = k")
    case True
    with n1 n2 show ?thesis by simp
  next
    case False
    with eqx[of x] kk show ?thesis by simp
  qed
  then have "map_of r = map_of r'" by (simp add: fun_eq_iff)
  from Cons.IH[OF r r' this] a m' kk vv show ?case by simp
qed

lemma Book_ext:
  assumes "sides_ok b" and "sides_ok b'" and "\<And>s px. lv b' s px = lv b s px"
    and "ordsById b' = ordsById b"
  shows "b' = b"
proof -
  have "map_of (bids b') = map_of (bids b)"
    using assms(3)[of Sd_Bid] by (simp add: lv_simps fun_eq_iff)
  with assms(1,2) have 1: "bids b' = bids b" by (simp add: sides_ok_def smap_ext)
  have "map_of (offers b') = map_of (offers b)"
    using assms(3)[of Sd_Ask] by (simp add: lv_simps fun_eq_iff)
  with assms(1,2) have 2: "offers b' = offers b" by (simp add: sides_ok_def smap_ext)
  from 1 2 assms(4) show ?thesis by simp
qed

lemma Book_Add_total:
  assumes "side m = Sd_Ask \<or> side m = Sd_Bid" and "ordsById b (orderId m) = None"
  shows "\<exists>b'. Book_Add b m = Inr (b', [])"
proof -
  from assms(1) obtain b1 where b1: "GetOrInsLvl b (side m) (price m) = Inr b1"
    using GetOrInsLvl_Inr_iff by blast
  with ordsById_GetOrInsLvl[OF b1] assms(2) show ?thesis
    by (simp add: Book_Add_def)
qed

lemma Book_Cancel_total:
  assumes "ordsById b (orderId m) = Some ps" and "lv b (ps_side ps) (ps_price ps) = Some q"
    and "ps_side rd = Sd_Ask \<or> ps_side rd = Sd_Bid"
  shows "\<exists>b' w. Book_Cancel rd b m = Inr (b', w)"
proof -
  from assms(2) have g: "GetLvl b (ps_side ps) (ps_price ps) = Inr q" by (simp add: GetLvl_lv)
  from assms(3) have rl: "\<exists>b'. RemLvl (ps_side rd) (ps_price rd) x = Inr b'" for x
    using RemLvl_Inr_iff by blast
  show ?thesis
  proof (cases "GetLvlOrd q (orderId m)")
    case None
    with assms(1) g show ?thesis by (simp add: Book_Cancel_def)
  next
    case (Some i)
    with assms(1) g rl show ?thesis
      unfolding Book_Cancel_def Let_def by (auto split: sum.splits) (metis sum.distinct(1))+
  qed
qed

text \<open>
  Let \<open>b\<close> be a book whose index agrees with its queues, in which the id of the Add event
  \<open>a\<close> is not in the index, and let \<open>a\<close> have side Bid or Ask. Applying \<open>a\<close> and then a Cancel
  \<open>c\<close> of the same id and the same size gives back the book \<open>b\<close> when the read of the Cancel
  through the erased iterator yields the price and the side of \<open>a\<close>, the record just erased.
\<close>

lemma add_then_cancel_read_recorded:
  assumes inv: "book_inv b"
    and fresh: "ordsById b (orderId a) = None"
    and sd: "side a = Sd_Bid \<or> side a = Sd_Ask"
    and act: "action a = Act_Add" "action c = Act_Cancel"
    and same: "orderId c = orderId a" "osize c = osize a"
  shows "\<exists>b1. Book_Apply rd b a = Inr (b1, [])
            \<and> Book_Apply \<lparr>ps_price = price a, ps_side = side a\<rparr> b1 c = Inr (b, [])"
proof -
  from inv have ok: "sides_ok b" and ii: "index_inv (lv b) (ordsById b)"
    by (simp_all add: book_inv_def)
  from Book_Add_total[of a b] sd fresh obtain b1 where add: "Book_Add b a = Inr (b1, [])"
    by blast
  note c1 = Book_Add_char[OF ok add]
  define q0 where "q0 = (case lv b (side a) (price a) of None \<Rightarrow> [] | Some q \<Rightarrow> q)"
  from c1 have ok1: "sides_ok b1"
    and i1: "ordsById b1 = (ordsById b)(orderId a \<mapsto> \<lparr>ps_price = price a, ps_side = side a\<rparr>)"
    and l1: "\<And>s px. lv b1 s px =
        (if s = side a \<and> px = price a then Some (q0 @ [a]) else lv b s px)"
    by (simp_all add: q0_def)
  have fr: "orderId a \<notin> orderId ` set q0"
  proof (cases "lv b (side a) (price a)")
    case None
    then show ?thesis by (simp add: q0_def)
  next
    case (Some q)
    with ii fresh have "\<forall>e \<in> set q. orderId e \<noteq> orderId a"
      unfolding index_inv_def by force
    with Some show ?thesis by (auto simp: q0_def)
  qed
  have q0e: "(if q0 = [] then None else Some q0) = lv b (side a) (price a)"
  proof (cases "lv b (side a) (price a)")
    case None
    then show ?thesis by (simp add: q0_def)
  next
    case (Some q)
    with ii have "q \<noteq> []" unfolding index_inv_def by blast
    with Some show ?thesis by (simp add: q0_def)
  qed
  have ix: "ordsById b1 (orderId c) = Some \<lparr>ps_price = price a, ps_side = side a\<rparr>"
    by (simp add: i1 same)
  have lq: "lv b1 (ps_side \<lparr>ps_price = price a, ps_side = side a\<rparr>)
      (ps_price \<lparr>ps_price = price a, ps_side = side a\<rparr>) = Some (q0 @ [a])"
    by (simp add: l1)
  have sr: "ps_side \<lparr>ps_price = price a, ps_side = side a\<rparr> = Sd_Ask
          \<or> ps_side \<lparr>ps_price = price a, ps_side = side a\<rparr> = Sd_Bid"
    using sd by auto
  from Book_Cancel_total[OF ix lq sr] obtain b' w where
    can: "Book_Cancel \<lparr>ps_price = price a, ps_side = side a\<rparr> b1 c = Inr (b', w)"
    by blast
  from ok1 can have "b' = b \<and> w = []"
  proof (cases rule: Book_Cancel_cases)
    case unknown
    with ix show ?thesis by simp
  next
    case (not_in_list ps q)
    with ix l1 same show ?thesis by auto
  next
    case (removed ps pre e post)
    from removed(1) ix have ps: "ps = \<lparr>ps_price = price a, ps_side = side a\<rparr>" by simp
    with removed(2) l1 have sp: "q0 @ [a] = pre @ e # post" by simp
    have "post = []"
    proof (rule ccontr)
      assume "post \<noteq> []"
      then obtain post' x where "post = post' @ [x]" by (metis rev_exhaust)
      with sp have "q0 = pre @ e # post'" by simp
      with removed(3) same fr show False by auto
    qed
    with sp have pe: "pre = q0" "e = a" by simp_all
    have "ordsById b' = ordsById b"
      using removed(7) i1 fresh same by (simp add: fun_upd_idem)
    moreover have "lv b' s px = lv b s px" for s px
      using removed(8)[of s px] ps pe \<open>post = []\<close> l1[of s px] q0e by auto
    ultimately have "b' = b" using Book_ext[OF ok removed(6)] by blast
    moreover have "w = []" using removed(9) pe same by simp
    ultimately show ?thesis by simp
  next
    case (reduced ps pre e post)
    from reduced(1) ix have ps: "ps = \<lparr>ps_price = price a, ps_side = side a\<rparr>" by simp
    with reduced(2) l1 have sp: "q0 @ [a] = pre @ e # post" by simp
    have "post = []"
    proof (rule ccontr)
      assume "post \<noteq> []"
      then obtain post' x where "post = post' @ [x]" by (metis rev_exhaust)
      with sp have "q0 = pre @ e # post'" by simp
      with reduced(3) same fr show False by auto
    qed
    with sp have "e = a" by simp
    with reduced(5) same show ?thesis by simp
  qed
  with add can act show ?thesis by (simp add: Book_Apply_def)
qed

text \<open>
  C9. Add followed by Cancel does not give back the starting book in \<open>Book::Cancel\<close> as the
  source has it. On the empty book the Add of order 1 (Bid, 100, size 5) creates level 100;
  the Cancel of order 1 with size 5 empties that level and reads \<open>psIt->second\<close> through the
  erased iterator. When the read yields (0, Bid), the call returns a book that still has the
  empty level 100, which is not the empty book; when it yields a side that is neither Bid
  nor Ask, the call throws \<open>std::invalid_argument\<close>; the empty book comes back when the read
  yields (100, Bid), the record just erased.
\<close>

theorem add_then_cancel_read_after_erase:
  "Book_Apply rd_none Book_init (ev Act_Add 1 Sd_Bid 100 5) = Inr (book_one_order, [])
   \<and> Book_Apply \<lparr>ps_price = 0, ps_side = Sd_Bid\<rparr> book_one_order (ev Act_Cancel 1 Sd_Bid 100 5)
       = Inr (book_empty_level, [])
   \<and> book_empty_level \<noteq> Book_init
   \<and> Book_Apply \<lparr>ps_price = 100, ps_side = Sd_Other (CHR 0xDD)\<rparr> book_one_order
         (ev Act_Cancel 1 Sd_Bid 100 5)
       = Inl (invalid_argument Invalid_side)
   \<and> Book_Apply \<lparr>ps_price = 100, ps_side = Sd_Bid\<rparr> book_one_order (ev Act_Cancel 1 Sd_Bid 100 5)
       = Inr (Book_init, [])"
  by (simp add: book_one_order_def book_empty_level_def book_defs ev_def)

subsection \<open>Modify at the recorded price\<close>

text \<open>
  C6. Let \<open>b\<close> be a book whose price maps are key-ordered and whose index agrees with its
  queues (\<open>book_inv\<close>; the books of \<open>book_inv_run\<close> are such), and \<open>m\<close> a Modify whose id is
  in the index with the price and the side of \<open>m\<close> (a different side is the fatal fault of C7).
  The queue of that side and price holds exactly one order \<open>e\<close> with the id, say as
  \<open>pre @ e # post\<close>; \<open>Book::Modify\<close> returns without a warning, leaves the index and every
  other level as they were, and the queue becomes \<open>pre @ post @ [m]\<close> when the size of \<open>m\<close>
  is greater than the size of \<open>e\<close> (the order goes to the tail, as the entry \<open>m\<close>), and
  \<open>pre @ e\<lparr>osize := osize m\<rparr> # post\<close> otherwise (same position, new size).
\<close>

theorem modify_same_price_queue_position:
  assumes inv: "book_inv b"
    and ix: "ordsById b (orderId m) = Some ps"
    and pr: "ps_price ps = price m"
    and sd: "ps_side ps = side m"
  shows "\<exists>pre e post b'.
           lv b (side m) (price m) = Some (pre @ e # post)
         \<and> orderId e = orderId m \<and> orderId m \<notin> orderId ` set (pre @ post)
         \<and> Book_Modify b m = Inr (b', [])
         \<and> ordsById b' = ordsById b
         \<and> (\<forall>s px. (s, px) \<noteq> (side m, price m) \<longrightarrow> lv b' s px = lv b s px)
         \<and> lv b' (side m) (price m) =
             Some (if osize e < osize m then pre @ post @ [m]
                   else pre @ e\<lparr>osize := osize m\<rparr> # post)"
proof -
  from inv have ii: "index_inv (lv b) (ordsById b)" by (simp add: book_inv_def)
  from ii ix pr sd obtain q where q: "lv b (side m) (price m) = Some q"
    "orderId m \<in> orderId ` set q" unfolding index_inv_def by metis
  from ii q(1) have d: "distinct (map orderId q)" unfolding index_inv_def by blast
  from q(2) obtain i where i: "GetLvlOrd q (orderId m) = Some i"
    using GetLvlOrd_None[of q "orderId m"] by (cases "GetLvlOrd q (orderId m)") auto
  from GetLvlOrd_Some[OF i] obtain pre e post where
    sp: "q = pre @ e # post" "i = length pre" "orderId e = orderId m"
        "orderId m \<notin> orderId ` set pre" by blast
  from d sp(1,3) have np: "orderId m \<notin> orderId ` set post" by auto
  have nth: "q ! i = e" and upd: "\<And>x. q[i := x] = pre @ x # post"
    and er: "erase_at i q = pre @ post"
    using sp(1,2) by simp_all
  have g: "GetLvl b (side m) (price m) = Inr q" using q(1) by (simp add: GetLvl_lv)
  define q' where "q' = (if osize e < osize m then pre @ post @ [m]
                   else pre @ e\<lparr>osize := osize m\<rparr> # post)"
  have M: "Book_Modify b m = Inr (UpdLvl (side m) (price m) (\<lambda>_. q') b, [])"
    using ix pr sd g i nth upd er by (simp add: Book_Modify_def q'_def)
  have l: "lv (UpdLvl (side m) (price m) (\<lambda>_. q') b) s px =
      (if s = side m \<and> px = price m then Some q' else lv b s px)" for s px
    using q(1) by (simp add: lv_UpdLvl)
  show ?thesis
    using q(1) sp(1,3,4) np M l unfolding q'_def
    by (intro exI[of _ pre] exI[of _ e] exI[of _ post]
        exI[of _ "UpdLvl (side m) (price m) (\<lambda>_. q') b"]) (auto simp: q'_def)
qed

theorem modify_same_price_queue_position_witness:
  "\<exists>b1 b2 b3. run_book Book_init [Event rd_none (ev Act_Add 1 Sd_Bid 100 5),
        Event rd_none (ev Act_Add 2 Sd_Bid 100 6), Event rd_none (ev Act_Add 3 Sd_Bid 100 7)]
       = Inr b1
     \<and> book_inv b1
     \<and> lv b1 Sd_Bid 100 = Some [ev Act_Add 1 Sd_Bid 100 5, ev Act_Add 2 Sd_Bid 100 6,
          ev Act_Add 3 Sd_Bid 100 7]
     \<and> Book_Modify b1 (ev Act_Modify 2 Sd_Bid 100 9) = Inr (b2, [])
     \<and> lv b2 Sd_Bid 100 = Some [ev Act_Add 1 Sd_Bid 100 5, ev Act_Add 3 Sd_Bid 100 7,
          ev Act_Modify 2 Sd_Bid 100 9]
     \<and> Book_Modify b1 (ev Act_Modify 2 Sd_Bid 100 4) = Inr (b3, [])
     \<and> lv b3 Sd_Bid 100 = Some [ev Act_Add 1 Sd_Bid 100 5, ev Act_Add 2 Sd_Bid 100 4,
          ev Act_Add 3 Sd_Bid 100 7]"
proof -
  define b1 where "b1 = \<lparr>ordsById = [1 \<mapsto> \<lparr>ps_price = 100, ps_side = Sd_Bid\<rparr>,
        2 \<mapsto> \<lparr>ps_price = 100, ps_side = Sd_Bid\<rparr>, 3 \<mapsto> \<lparr>ps_price = 100, ps_side = Sd_Bid\<rparr>],
      offers = [],
      bids = [(100, [ev Act_Add 1 Sd_Bid 100 5, ev Act_Add 2 Sd_Bid 100 6,
          ev Act_Add 3 Sd_Bid 100 7])]\<rparr>"
  have r: "run_book Book_init [Event rd_none (ev Act_Add 1 Sd_Bid 100 5),
        Event rd_none (ev Act_Add 2 Sd_Bid 100 6), Event rd_none (ev Act_Add 3 Sd_Bid 100 7)]
       = Inr b1"
    by (simp add: b1_def book_defs ev_def)
  have rr: "reads_recorded Book_init [Event rd_none (ev Act_Add 1 Sd_Bid 100 5),
        Event rd_none (ev Act_Add 2 Sd_Bid 100 6), Event rd_none (ev Act_Add 3 Sd_Bid 100 7)]"
    by (simp add: read_recorded_def book_defs ev_def)
  have iv: "book_inv b1" using book_inv_run[OF book_inv_init rr r] .
  have l1: "lv b1 Sd_Bid 100 = Some [ev Act_Add 1 Sd_Bid 100 5, ev Act_Add 2 Sd_Bid 100 6,
          ev Act_Add 3 Sd_Bid 100 7]"
    by (simp add: b1_def lv_simps)
  have ix9: "ordsById b1 (orderId (ev Act_Modify 2 Sd_Bid 100 9))
      = Some \<lparr>ps_price = 100, ps_side = Sd_Bid\<rparr>"
    and ix4: "ordsById b1 (orderId (ev Act_Modify 2 Sd_Bid 100 4))
      = Some \<lparr>ps_price = 100, ps_side = Sd_Bid\<rparr>"
    by (simp_all add: b1_def ev_def)
  have p9: "ps_price \<lparr>ps_price = 100, ps_side = Sd_Bid\<rparr> = price (ev Act_Modify 2 Sd_Bid 100 9)"
    and s9: "ps_side \<lparr>ps_price = 100, ps_side = Sd_Bid\<rparr> = side (ev Act_Modify 2 Sd_Bid 100 9)"
    and p4: "ps_price \<lparr>ps_price = 100, ps_side = Sd_Bid\<rparr> = price (ev Act_Modify 2 Sd_Bid 100 4)"
    and s4: "ps_side \<lparr>ps_price = 100, ps_side = Sd_Bid\<rparr> = side (ev Act_Modify 2 Sd_Bid 100 4)"
    by (simp_all add: ev_def)
  have e9: "side (ev Act_Modify 2 Sd_Bid 100 9) = Sd_Bid" "price (ev Act_Modify 2 Sd_Bid 100 9) = 100"
    "orderId (ev Act_Modify 2 Sd_Bid 100 9) = 2" "osize (ev Act_Modify 2 Sd_Bid 100 9) = 9"
    and e4: "side (ev Act_Modify 2 Sd_Bid 100 4) = Sd_Bid" "price (ev Act_Modify 2 Sd_Bid 100 4) = 100"
    "orderId (ev Act_Modify 2 Sd_Bid 100 4) = 2" "osize (ev Act_Modify 2 Sd_Bid 100 4) = 4"
    by (simp_all add: ev_def)
  from modify_same_price_queue_position[OF iv ix9 p9 s9] obtain pre e post b2 where
    A: "lv b1 Sd_Bid 100 = Some (pre @ e # post)" "orderId e = 2"
       "2 \<notin> orderId ` set (pre @ post)"
       "Book_Modify b1 (ev Act_Modify 2 Sd_Bid 100 9) = Inr (b2, [])"
       "lv b2 Sd_Bid 100 = Some (if osize e < 9 then pre @ post @ [ev Act_Modify 2 Sd_Bid 100 9]
                   else pre @ e\<lparr>osize := 9\<rparr> # post)"
    unfolding e9 by blast
  from modify_same_price_queue_position[OF iv ix4 p4 s4] obtain pre' e' post' b3 where
    B: "lv b1 Sd_Bid 100 = Some (pre' @ e' # post')" "orderId e' = 2"
       "2 \<notin> orderId ` set (pre' @ post')"
       "Book_Modify b1 (ev Act_Modify 2 Sd_Bid 100 4) = Inr (b3, [])"
       "lv b3 Sd_Bid 100 = Some (if osize e' < 4 then pre' @ post' @ [ev Act_Modify 2 Sd_Bid 100 4]
                   else pre' @ e'\<lparr>osize := 4\<rparr> # post')"
    unfolding e4 by blast
  have M9: "Book_Modify b1 (ev Act_Modify 2 Sd_Bid 100 9) = Inr (b2, []) \<longrightarrow>
     lv b2 Sd_Bid 100 = Some [ev Act_Add 1 Sd_Bid 100 5, ev Act_Add 3 Sd_Bid 100 7,
          ev Act_Modify 2 Sd_Bid 100 9]"
    by (auto simp: b1_def book_defs ev_def lv_simps word_less_nat_alt)
  have M4: "Book_Modify b1 (ev Act_Modify 2 Sd_Bid 100 4) = Inr (b3, []) \<longrightarrow>
     lv b3 Sd_Bid 100 = Some [ev Act_Add 1 Sd_Bid 100 5, ev Act_Add 2 Sd_Bid 100 4,
          ev Act_Add 3 Sd_Bid 100 7]"
    by (auto simp: b1_def book_defs ev_def lv_simps word_less_nat_alt)
  from r iv l1 A(4) B(4) M9 M4 show ?thesis by blast
qed

subsection \<open>A synthetic trade larger than its level\<close>

lemma synth_loop_all:
  "level_total q < unat sz \<Longrightarrow>
   synth_loop q sz I = ([], sz - of_nat (level_total q), I |` (- orderId ` set q))"
proof (induction q arbitrary: sz I)
  case Nil
  then show ?case by (simp add: level_total_def restrict_map_def)
next
  case (Cons a q)
  from Cons.prems have lt: "unat (osize a) + level_total q < unat sz"
    by (simp add: level_total_def)
  then have pos: "0 < sz" by (simp add: word_less_nat_alt)
  from lt have le: "osize a \<le> sz" by (simp add: word_le_nat_alt)
  then have u: "unat (sz - osize a) = unat sz - unat (osize a)" by (rule unat_sub)
  with lt have "level_total q < unat (sz - osize a)" by simp
  then have ih: "synth_loop q (sz - osize a) (I(orderId a := None))
      = ([], sz - osize a - of_nat (level_total q), I(orderId a := None) |` (- orderId ` set q))"
    by (rule Cons.IH)
  have step: "synth_loop (a # q) sz I = synth_loop q (sz - osize a) (I(orderId a := None))"
    using pos le by simp
  have r: "sz - osize a - of_nat (level_total q) = sz - of_nat (level_total (a # q))"
    by (simp add: level_total_def)
  have i: "I(orderId a := None) |` (- orderId ` set q) = I |` (- orderId ` set (a # q))"
    by (auto simp: restrict_map_def fun_eq_iff)
  show ?case unfolding step ih r i ..
qed

text \<open>
  C10. In a book whose price maps are ordered by key and that has a level \<open>q\<close> at side \<open>s\<close>
  and price \<open>px\<close>, a synthetic trade of a size greater than the sum of the sizes of the
  orders of \<open>q\<close> returns normally and writes nothing to the error stream; its loop ends with
  an empty queue and a remaining size that is not 0 and is dropped; the level is removed; every
  id of an order of \<open>q\<close> is removed from the index; every other level of either side and the
  index record of every other id are what they were.
\<close>

theorem synth_trade_exceeding_level:
  assumes ok: "sides_ok b"
    and q: "lv b s px = Some q"
    and big: "level_total q < unat sz"
  shows "\<exists>b'. Book_ProcSynthTrade b px sz s = Inr (b', [])
       \<and> synth_loop q sz (ordsById b)
            = ([], sz - of_nat (level_total q), ordsById b |` (- orderId ` set q))
       \<and> sz - of_nat (level_total q) \<noteq> 0
       \<and> lv b' s px = None
       \<and> (\<forall>s' px'. (s', px') \<noteq> (s, px) \<longrightarrow> lv b' s' px' = lv b s' px')
       \<and> ordsById b' = ordsById b |` (- orderId ` set q)
       \<and> sides_ok b'"
proof -
  note sl = synth_loop_all[OF big, of "ordsById b"]
  have "unat sz < 2 ^ 32" using unsigned_less[of sz] by simp
  with big have "level_total q < 2 ^ 32" by simp
  then have "unat (of_nat (level_total q) :: u32) = level_total q"
    by (simp add: unat_of_nat)
  with big have "(of_nat (level_total q) :: u32) \<noteq> sz" by auto
  then have nz: "sz - of_nat (level_total q) \<noteq> 0" by simp
  from lv_Some_side[OF q] have "s = Sd_Ask \<or> s = Sd_Bid" .
  from Book_ProcSynthTrade_Inr[OF this] obtain b' w where
    c: "Book_ProcSynthTrade b px sz s = Inr (b', w)" by blast
  from ok c show ?thesis
  proof (cases rule: Book_ProcSynthTrade_cases)
    case no_lvl
    with q show ?thesis by simp
  next
    case (traded q0 q' r I')
    from traded(1) q have "q0 = q" by simp
    with traded(2) sl have "q' = []" "I' = ordsById b |` (- orderId ` set q)" by simp_all
    with traded c sl nz show ?thesis by auto
  qed
qed

theorem synth_trade_exceeding_level_witness:
  "level_total [ev Act_Add 1 Sd_Bid 100 5, ev Act_Add 2 Sd_Bid 100 6] = 11
   \<and> (\<exists>b'. Book_ProcSynthTrade
       \<lparr>ordsById = [1 \<mapsto> \<lparr>ps_price = 100, ps_side = Sd_Bid\<rparr>,
          2 \<mapsto> \<lparr>ps_price = 100, ps_side = Sd_Bid\<rparr>, 3 \<mapsto> \<lparr>ps_price = 99, ps_side = Sd_Bid\<rparr>],
        offers = [],
        bids = [(99, [ev Act_Add 3 Sd_Bid 99 7]),
                (100, [ev Act_Add 1 Sd_Bid 100 5, ev Act_Add 2 Sd_Bid 100 6])]\<rparr> 100 12 Sd_Bid
      = Inr (b', [])
     \<and> lv b' Sd_Bid 100 = None
     \<and> lv b' Sd_Bid 99 = Some [ev Act_Add 3 Sd_Bid 99 7]
     \<and> ordsById b' 1 = None \<and> ordsById b' 2 = None
     \<and> ordsById b' 3 = Some \<lparr>ps_price = 99, ps_side = Sd_Bid\<rparr>)"
proof -
  define b where "b = \<lparr>ordsById = [1 \<mapsto> \<lparr>ps_price = 100, ps_side = Sd_Bid\<rparr>,
          2 \<mapsto> \<lparr>ps_price = 100, ps_side = Sd_Bid\<rparr>, 3 \<mapsto> \<lparr>ps_price = 99, ps_side = Sd_Bid\<rparr>],
        offers = [],
        bids = [(99, [ev Act_Add 3 Sd_Bid 99 7]),
                (100, [ev Act_Add 1 Sd_Bid 100 5, ev Act_Add 2 Sd_Bid 100 6])]\<rparr>"
  have ok: "sides_ok b" by (simp add: b_def sides_ok_def smap_ok_def)
  have q: "lv b Sd_Bid 100 = Some [ev Act_Add 1 Sd_Bid 100 5, ev Act_Add 2 Sd_Bid 100 6]"
    by (simp add: b_def lv_simps)
  have t: "level_total [ev Act_Add 1 Sd_Bid 100 5, ev Act_Add 2 Sd_Bid 100 6] = 11"
    by (simp add: level_total_def ev_def)
  have big: "level_total [ev Act_Add 1 Sd_Bid 100 5, ev Act_Add 2 Sd_Bid 100 6] < unat (12 :: u32)"
    by (simp add: t)
  from synth_trade_exceeding_level[OF ok q big] obtain b' where
    A: "Book_ProcSynthTrade b 100 12 Sd_Bid = Inr (b', [])"
      "lv b' Sd_Bid 100 = None"
      "\<forall>s' px'. (s', px') \<noteq> (Sd_Bid, 100) \<longrightarrow> lv b' s' px' = lv b s' px'"
      "ordsById b' = ordsById b |` (- orderId ` set [ev Act_Add 1 Sd_Bid 100 5, ev Act_Add 2 Sd_Bid 100 6])"
    by blast
  from A(3) have "lv b' Sd_Bid 99 = lv b Sd_Bid 99" by simp
  then have l99: "lv b' Sd_Bid 99 = Some [ev Act_Add 3 Sd_Bid 99 7]"
    by (simp add: b_def lv_simps)
  from A(4) have "ordsById b' 1 = None \<and> ordsById b' 2 = None
     \<and> ordsById b' 3 = Some \<lparr>ps_price = 99, ps_side = Sd_Bid\<rparr>"
    by (simp add: b_def ev_def restrict_map_def)
  with t A(1,2) l99 show ?thesis unfolding b_def by blast
qed

subsection \<open>Sizes of the orders at rest\<close>















text \<open>
  No level is empty in a book whose index agrees with its queues; the book a Cancel leaves
  when its read through the erased iterator names another level has an empty level.
\<close>

lemma book_inv_levels_nonempty:
  assumes "book_inv b"
  shows "levels_nonempty b"
proof -
  from assms have ok: "smap_ok (bids b)" "smap_ok (offers b)"
    and ii: "index_inv (lv b) (ordsById b)"
    by (simp_all add: book_inv_def sides_ok_def)
  have "q \<noteq> []" if "(px, q) \<in> set (bids b @ offers b)" for px q
  proof -
    from that have "lv b Sd_Bid px = Some q \<or> lv b Sd_Ask px = Some q"
      by (auto simp: lv_simps smap_ok_map_of[OF ok(1)] smap_ok_map_of[OF ok(2)])
    with ii show ?thesis unfolding index_inv_def by blast
  qed
  then show ?thesis unfolding levels_nonempty_def list_all_iff by auto
qed

lemma book_empty_level_not_levels_nonempty: "\<not> levels_nonempty book_empty_level"
  by (simp add: levels_nonempty_def book_empty_level_def)





subsection \<open>Aggregation across publishers\<close>

lemma CalcPriceLvl_fold:
  "fold (\<lambda>ord res. res\<lparr>lcount := lcount res + 1, lsize := lsize res + osize ord\<rparr>) q r
   = r\<lparr>lcount := lcount r + of_nat (length q), lsize := lsize r + sum_list (map osize q)\<rparr>"
  by (induction q arbitrary: r) (simp_all add: algebra_simps)

lemma CalcPriceLvl_summary: "CalcPriceLvl px q = level_summary px q"
  by (simp add: CalcPriceLvl_def CalcPriceLvl_fold level_summary_def PriceLvl_init_def)

lemma fold_agg_concat:
  "fold (\<lambda>(pub, bk) agg. fold agg_lvl (F bk) agg) pubs agg0
   = fold agg_lvl (concat (map (\<lambda>(pub, bk). F bk) pubs)) agg0"
  by (induction pubs arbitrary: agg0) (auto simp: case_prod_beta)

lemma fold_agg_skip:
  "fold agg_lvl ls agg = fold agg_lvl (filter (\<lambda>l. \<not> IsEmpty l) ls) agg"
  by (induction ls arbitrary: agg) (simp_all add: agg_lvl_def)

lemma smap_at_present: "smap_ok m \<Longrightarrow> k \<in> fst ` set m \<Longrightarrow> smap_at k d m = m"
proof (induction m)
  case Nil
  then show ?case by simp
next
  case (Cons a m)
  obtain k' v where a: "a = (k', v)" by (cases a)
  from Cons.prems(1) a have r: "smap_ok m" and lt: "\<forall>x \<in> fst ` set m. k' < x"
    by (simp_all add: smap_ok_Cons)
  show ?case
  proof (cases "k = k'")
    case True
    with a show ?thesis by simp
  next
    case False
    with Cons.prems(2) a have km: "k \<in> fst ` set m" by auto
    with lt have "k' < k" by blast
    with False a Cons.IH[OF r km] show ?thesis by simp
  qed
qed

lemma smap_upd_upd: "smap_upd k g (smap_upd k f m) = smap_upd k (\<lambda>v. g (f v)) m"
  by (induction m) auto

lemma set_keys_smap_upd: "fst ` set (smap_upd k f m) = fst ` set m"
  using keys_smap_upd[of k f m] by (metis list.set_map)

lemma agg_lvl_nonempty:
  assumes ok: "smap_ok agg" and ne: "\<not> IsEmpty lvl"
  shows "agg_lvl lvl agg =
      smap_upd (lprice lvl)
        (\<lambda>a. \<lparr>lprice = lprice lvl, lsize = lsize a + lsize lvl, lcount = lcount a + lcount lvl\<rparr>)
        (smap_at (lprice lvl) (PriceLvl_init UNDEFINED_PRICE) agg)"
proof -
  define p where "p = lprice lvl"
  define d where "d = PriceLvl_init UNDEFINED_PRICE"
  define a0 where "a0 = smap_at p d agg"
  have ok0: "smap_ok a0" unfolding a0_def by (rule smap_ok_at[OF ok])
  have k0: "p \<in> fst ` set a0" unfolding a0_def by (simp add: set_keys_smap_at)
  have pres: "smap_at p d (smap_upd p f a0) = smap_upd p f a0" for f
    by (rule smap_at_present) (simp_all add: smap_ok_upd ok0 set_keys_smap_upd k0)
  have pres2: "smap_at p d (smap_upd p g (smap_upd p f a0)) = smap_upd p g (smap_upd p f a0)" for f g
    by (rule smap_at_present) (simp_all add: smap_ok_upd ok0 set_keys_smap_upd k0)
  have "agg_lvl lvl agg =
     smap_upd p (\<lambda>a. a\<lparr>lprice := p\<rparr>)
       (smap_upd p (\<lambda>a. a\<lparr>lcount := lcount a + lcount lvl\<rparr>)
          (smap_upd p (\<lambda>a. a\<lparr>lsize := lsize a + lsize lvl\<rparr>) a0))"
    using ne unfolding agg_lvl_def Let_def p_def[symmetric] d_def[symmetric] a0_def[symmetric]
    by (simp add: pres pres2)
  also have "\<dots> = smap_upd p
      (\<lambda>a. \<lparr>lprice = p, lsize = lsize a + lsize lvl, lcount = lcount a + lcount lvl\<rparr>) a0"
  proof -
    have "(\<lambda>v::PriceLvl. v\<lparr>lsize := lsize v + lsize lvl, lcount := lcount v + lcount lvl,
               lprice := p\<rparr>)
        = (\<lambda>a. \<lparr>lprice = p, lsize = lsize a + lsize lvl, lcount = lcount a + lcount lvl\<rparr>)"
    proof (rule ext)
      fix v :: PriceLvl
      show "v\<lparr>lsize := lsize v + lsize lvl, lcount := lcount v + lcount lvl, lprice := p\<rparr>
        = \<lparr>lprice = p, lsize = lsize v + lsize lvl, lcount = lcount v + lcount lvl\<rparr>"
        by (cases v) simp
    qed
    then show ?thesis by (simp add: smap_upd_upd)
  qed
  finally show ?thesis unfolding p_def d_def a0_def .
qed

lemma agg_at_snoc_same:
  "lprice lvl = p \<Longrightarrow>
   agg_at (seen @ [lvl]) p =
     \<lparr>lprice = p, lsize = lsize (agg_at seen p) + lsize lvl,
      lcount = lcount (agg_at seen p) + lcount lvl\<rparr>"
  by (simp add: agg_at_def)

lemma agg_at_snoc_other: "lprice lvl \<noteq> p \<Longrightarrow> agg_at (seen @ [lvl]) p = agg_at seen p"
  by (simp add: agg_at_def)

lemma agg_at_unseen:
  "p \<notin> lprice ` set seen \<Longrightarrow> agg_at seen p = \<lparr>lprice = p, lsize = 0, lcount = 0\<rparr>"
proof -
  assume "p \<notin> lprice ` set seen"
  then have "filter (\<lambda>l. lprice l = p) seen = []" by (auto simp: filter_empty_conv)
  then show ?thesis by (simp add: agg_at_def)
qed

lemma agg_lvl_step:
  assumes ok: "smap_ok agg" and m: "map_of agg = agg_map seen" and ne: "\<not> IsEmpty lvl"
  shows "smap_ok (agg_lvl lvl agg) \<and> map_of (agg_lvl lvl agg) = agg_map (seen @ [lvl])"
proof -
  define p where "p = lprice lvl"
  define d where "d = PriceLvl_init UNDEFINED_PRICE"
  define F where "F = (\<lambda>a::PriceLvl. \<lparr>lprice = p, lsize = lsize a + lsize lvl,
      lcount = lcount a + lcount lvl\<rparr>)"
  have e: "agg_lvl lvl agg = smap_upd p F (smap_at p d agg)"
    unfolding p_def d_def F_def by (rule agg_lvl_nonempty[OF ok ne])
  have ok': "smap_ok (agg_lvl lvl agg)"
    unfolding e by (intro smap_ok_upd smap_ok_at ok)
  have "map_of (agg_lvl lvl agg) x = agg_map (seen @ [lvl]) x" for x
  proof (cases "p \<in> lprice ` set seen")
    case True
    then have ap: "map_of agg p = Some (agg_at seen p)" by (simp add: m agg_map_def)
    have "map_of (agg_lvl lvl agg) x = ((map_of agg)(p \<mapsto> F (agg_at seen p))) x"
      unfolding e by (simp add: map_of_smap_upd map_of_smap_at[OF ok] ap)
    also have "\<dots> = agg_map (seen @ [lvl]) x"
    proof (cases "x = p")
      case True
      then show ?thesis
        by (simp add: agg_map_def F_def agg_at_snoc_same[OF refl] p_def)
    next
      case False
      then show ?thesis
        using agg_at_snoc_other[of lvl x seen]
        by (auto simp: m agg_map_def p_def)
    qed
    finally show ?thesis .
  next
    case False
    then have ap: "map_of agg p = None" by (simp add: m agg_map_def)
    have "map_of (agg_lvl lvl agg) x = ((map_of agg)(p \<mapsto> F d)) x"
      unfolding e by (simp add: map_of_smap_upd map_of_smap_at[OF ok] ap)
    also have "\<dots> = agg_map (seen @ [lvl]) x"
    proof (cases "x = p")
      case True
      have "F d = agg_at (seen @ [lvl]) p"
        using agg_at_unseen[OF False]
        by (simp add: F_def d_def PriceLvl_init_def agg_at_snoc_same[OF refl] p_def)
      with True show ?thesis by (simp add: agg_map_def p_def)
    next
      case False
      then show ?thesis
        using agg_at_snoc_other[of lvl x seen]
        by (auto simp: m agg_map_def p_def)
    qed
    finally show ?thesis .
  qed
  with ok' show ?thesis by (simp add: fun_eq_iff)
qed

lemma agg_fold:
  "smap_ok agg \<Longrightarrow> map_of agg = agg_map seen \<Longrightarrow> \<forall>l \<in> set ls. \<not> IsEmpty l \<Longrightarrow>
   smap_ok (fold agg_lvl ls agg) \<and> map_of (fold agg_lvl ls agg) = agg_map (seen @ ls)"
proof (induction ls arbitrary: agg seen)
  case Nil
  then show ?case by simp
next
  case (Cons l ls)
  from Cons.prems(3) have ne: "\<not> IsEmpty l" and rest: "\<forall>l \<in> set ls. \<not> IsEmpty l" by simp_all
  from agg_lvl_step[OF Cons.prems(1,2) ne]
  have s: "smap_ok (agg_lvl l agg)" "map_of (agg_lvl l agg) = agg_map (seen @ [l])" by simp_all
  from Cons.IH[OF s rest] show ?case by simp
qed

lemma smap_ok_prices: "smap_ok (map (\<lambda>p. (p, f p)) (prices_asc ls))"
proof -
  have "map fst (map (\<lambda>p. (p, f p)) (prices_asc ls)) = prices_asc ls"
    by (simp add: comp_def)
  moreover have "sorted_wrt (<) (prices_asc ls)"
    unfolding prices_asc_def by (simp add: strict_sorted_iff)
  ultimately show ?thesis by (simp add: smap_ok_def)
qed

lemma map_of_prices:
  "map_of (map (\<lambda>p. (p, agg_at ls p)) (prices_asc ls)) = agg_map ls"
proof
  fix x
  have "set (prices_asc ls) = lprice ` set ls" by (simp add: prices_asc_def)
  then show "map_of (map (\<lambda>p. (p, agg_at ls p)) (prices_asc ls)) x = agg_map ls x"
    by (simp add: map_of_map_restrict restrict_map_def agg_map_def)
qed

lemma agg_final:
  assumes "\<forall>l \<in> set ls. \<not> IsEmpty l"
  shows "fold agg_lvl ls [] = map (\<lambda>p. (p, agg_at ls p)) (prices_asc ls)"
proof -
  have "smap_ok ([] :: PriceLvl smap)" by (simp add: smap_ok_def)
  moreover have "map_of ([] :: PriceLvl smap) = agg_map []"
    by (simp add: agg_map_def fun_eq_iff)
  ultimately have "smap_ok (fold agg_lvl ls [])" "map_of (fold agg_lvl ls []) = agg_map ([] @ ls)"
    using agg_fold[OF _ _ assms, of "[]" "[]"] by simp_all
  then show ?thesis
    using smap_ext[OF _ smap_ok_prices[of "agg_at ls" ls]] map_of_prices[of ls] by simp
qed

lemma agg_code:
  "fold agg_lvl ls [] =
     map (\<lambda>p. (p, agg_at (filter (\<lambda>l. \<not> IsEmpty l) ls) p))
       (prices_asc (filter (\<lambda>l. \<not> IsEmpty l) ls))"
proof -
  have "fold agg_lvl ls [] = fold agg_lvl (filter (\<lambda>l. \<not> IsEmpty l) ls) []"
    by (rule fold_agg_skip)
  also have "\<dots> = map (\<lambda>p. (p, agg_at (filter (\<lambda>l. \<not> IsEmpty l) ls) p))
       (prices_asc (filter (\<lambda>l. \<not> IsEmpty l) ls))"
    by (rule agg_final) simp
  finally show ?thesis .
qed

lemma GetAggBidLvls_spec:
  "GetAggBidLvls mk instr n
     = aggregate_desc n (filter (\<lambda>l. \<not> IsEmpty l) (pub_bid_lvls mk instr n))"
proof (cases "books mk instr")
  case None
  then show ?thesis
    by (simp add: GetAggBidLvls_def pub_bid_lvls_def aggregate_desc_def prices_asc_def)
next
  case (Some pubs)
  then show ?thesis
    by (simp add: GetAggBidLvls_def pub_bid_lvls_def aggregate_desc_def fold_agg_concat
        agg_code rev_map take_map comp_def)
qed

lemma GetAggAskLvls_spec:
  "GetAggAskLvls mk instr n
     = aggregate_asc n (filter (\<lambda>l. \<not> IsEmpty l) (pub_ask_lvls mk instr n))"
proof (cases "books mk instr")
  case None
  then show ?thesis
    by (simp add: GetAggAskLvls_def pub_ask_lvls_def aggregate_asc_def prices_asc_def)
next
  case (Some pubs)
  then show ?thesis
    by (simp add: GetAggAskLvls_def pub_ask_lvls_def aggregate_asc_def fold_agg_concat
        agg_code take_map comp_def)
qed

lemma lprice_agg_at [simp]: "lprice (agg_at ls p) = p"
  by (simp add: agg_at_def)

lemma prices_asc_strict: "sorted_wrt (<) (prices_asc ls)"
  unfolding prices_asc_def by (simp add: strict_sorted_iff)

text \<open>
  C4, as stated, fails: a level whose price is \<open>UNDEFINED_PRICE\<close> (an Add decoded from an
  empty price field) is one of the best levels of its book, the best ask even, and the
  aggregation skips it. With such an ask and an ask at 101 in the only book, the one best ask
  level of the book is the one at \<open>UNDEFINED_PRICE\<close>, and the aggregated top 1 is empty.
\<close>

theorem aggregate_skips_undefined_price_counterexample:
  "Market_Apply rd_none Market_init (ev Act_Add 1 Sd_Ask UNDEFINED_PRICE 5) = Inr (market_undef_1, [])
   \<and> Market_Apply rd_none market_undef_1 (ev Act_Add 2 Sd_Ask 101 3) = Inr (market_undef, [])
   \<and> pub_ask_lvls market_undef 42 1 = [\<lparr>lprice = UNDEFINED_PRICE, lsize = 5, lcount = 1\<rparr>]
   \<and> aggregate_asc 1 (pub_ask_lvls market_undef 42 1)
        = [\<lparr>lprice = UNDEFINED_PRICE, lsize = 5, lcount = 1\<rparr>]
   \<and> GetAggAskLvls market_undef 42 1 = []
   \<and> GetAggAskLvls market_undef 42 1 \<noteq> aggregate_asc 1 (pub_ask_lvls market_undef 42 1)"
proof -
  have 1: "Market_Apply rd_none Market_init (ev Act_Add 1 Sd_Ask UNDEFINED_PRICE 5)
      = Inr (market_undef_1, [])"
    by (simp add: Market_Apply_def Market_init_def market_undef_1_def book_defs ev_def
        UNDEFINED_PRICE_def)
  have 2: "Market_Apply rd_none market_undef_1 (ev Act_Add 2 Sd_Ask 101 3) = Inr (market_undef, [])"
    by (simp add: Market_Apply_def market_undef_1_def market_undef_def book_defs ev_def
        UNDEFINED_PRICE_def fun_upd_twist)
  have 3: "pub_ask_lvls market_undef 42 1 = [\<lparr>lprice = UNDEFINED_PRICE, lsize = 5, lcount = 1\<rparr>]"
    by (simp add: pub_ask_lvls_def market_undef_def GetAskLvls_def CalcPriceLvl_def
        PriceLvl_init_def ev_def)
  have 4: "aggregate_asc 1 [\<lparr>lprice = UNDEFINED_PRICE, lsize = 5, lcount = 1\<rparr>]
        = [\<lparr>lprice = UNDEFINED_PRICE, lsize = 5, lcount = 1\<rparr>]"
    by (simp add: aggregate_asc_def prices_asc_def agg_at_def)
  have 5: "GetAggAskLvls market_undef 42 1 = []"
    by (simp add: GetAggAskLvls_def market_undef_def GetAskLvls_def CalcPriceLvl_def
        PriceLvl_init_def ev_def agg_lvl_def IsEmpty_def)
  from 1 2 3 4 5 show ?thesis by simp
qed

text \<open>
  C4, amended. For every market, instrument and \<open>n\<close>: the aggregated bid levels are the
  aggregates, by price, of the first \<open>n\<close> bid levels of every publisher's book of the
  instrument, those of price \<open>UNDEFINED_PRICE\<close> left out, for the \<open>n\<close> largest prices from the
  largest down; the aggregated ask levels likewise for the \<open>n\<close> smallest prices from the
  smallest up. Each has at most \<open>n\<close> levels, with strictly decreasing (bids) or increasing
  (asks) prices. An aggregate's size and count are the sums, in \<open>uint32_t\<close>, of the sizes
  and counts of the contributed levels of its price; a publisher with no level at a price
  contributes nothing to it, and an instrument with no book has no levels. The levels a book
  contributes are the summaries of its first \<open>n\<close> levels, bids read from the largest price.
\<close>

theorem aggregated_levels:
  "GetAggBidLvls mk instr n
     = aggregate_desc n (filter (\<lambda>l. \<not> IsEmpty l) (pub_bid_lvls mk instr n))
   \<and> GetAggAskLvls mk instr n
     = aggregate_asc n (filter (\<lambda>l. \<not> IsEmpty l) (pub_ask_lvls mk instr n))
   \<and> length (GetAggBidLvls mk instr n) \<le> n \<and> length (GetAggAskLvls mk instr n) \<le> n
   \<and> sorted_wrt (>) (map lprice (GetAggBidLvls mk instr n))
   \<and> sorted_wrt (<) (map lprice (GetAggAskLvls mk instr n))
   \<and> GetBidLvls bk n = map (\<lambda>(px, q). level_summary px q) (take n (rev (bids bk)))
   \<and> GetAskLvls bk n = map (\<lambda>(px, q). level_summary px q) (take n (offers bk))"
proof -
  have d: "sorted_wrt (>) (map lprice (aggregate_desc n ls))" for ls
  proof -
    have "map lprice (aggregate_desc n ls) = take n (rev (prices_asc ls))"
      by (simp add: aggregate_desc_def comp_def)
    moreover have "sorted_wrt (>) (rev (prices_asc ls))"
      using prices_asc_strict[of ls] by (simp add: sorted_wrt_rev)
    ultimately show ?thesis by (simp add: sorted_wrt_take)
  qed
  have a: "sorted_wrt (<) (map lprice (aggregate_asc n ls))" for ls
  proof -
    have "map lprice (aggregate_asc n ls) = take n (prices_asc ls)"
      by (simp add: aggregate_asc_def comp_def)
    then show ?thesis using prices_asc_strict[of ls] by (simp add: sorted_wrt_take)
  qed
  have l1: "length (aggregate_desc n ls) \<le> n" for ls by (simp add: aggregate_desc_def)
  have l2: "length (aggregate_asc n ls) \<le> n" for ls by (simp add: aggregate_asc_def)
  show ?thesis
    unfolding GetAggBidLvls_spec GetAggAskLvls_spec
    using d a l1 l2 by (simp add: GetBidLvls_def GetAskLvls_def CalcPriceLvl_summary)
qed

theorem aggregated_levels_witness:
  "pub_bid_lvls market_two_pubs 42 2 =
     [\<lparr>lprice = 100000000000, lsize = 3, lcount = 1\<rparr>,
      \<lparr>lprice = 100000000000, lsize = 2, lcount = 1\<rparr>,
      \<lparr>lprice = 99500000000, lsize = 1, lcount = 1\<rparr>]
   \<and> GetAggBidLvls market_two_pubs 42 2 =
     [\<lparr>lprice = 100000000000, lsize = 5, lcount = 2\<rparr>,
      \<lparr>lprice = 99500000000, lsize = 1, lcount = 1\<rparr>]
   \<and> GetAggBidLvls market_two_pubs 42 1 = [\<lparr>lprice = 100000000000, lsize = 5, lcount = 2\<rparr>]
   \<and> GetAggAskLvls market_two_pubs 42 2 = []"
proof -
  have p: "pub_bid_lvls market_two_pubs 42 2 =
     [\<lparr>lprice = 100000000000, lsize = 3, lcount = 1\<rparr>,
      \<lparr>lprice = 100000000000, lsize = 2, lcount = 1\<rparr>,
      \<lparr>lprice = 99500000000, lsize = 1, lcount = 1\<rparr>]"
    by (simp add: pub_bid_lvls_def market_two_pubs_def GetBidLvls_def CalcPriceLvl_def
        PriceLvl_init_def ev_def)
  have p1: "pub_bid_lvls market_two_pubs 42 1 =
     [\<lparr>lprice = 100000000000, lsize = 3, lcount = 1\<rparr>,
      \<lparr>lprice = 100000000000, lsize = 2, lcount = 1\<rparr>]"
    by (simp add: pub_bid_lvls_def market_two_pubs_def GetBidLvls_def CalcPriceLvl_def
        PriceLvl_init_def ev_def)
  have a: "pub_ask_lvls market_two_pubs 42 2 = []"
    by (simp add: pub_ask_lvls_def market_two_pubs_def GetAskLvls_def)
  from aggregated_levels[of market_two_pubs 42 2] aggregated_levels[of market_two_pubs 42 1]
  show ?thesis unfolding p p1 a
    by (simp add: aggregate_desc_def aggregate_asc_def prices_asc_def agg_at_def IsEmpty_def
        UNDEFINED_PRICE_def)
qed

end
